theory Spec2Isabelle
  imports Main
begin

section \<open>Common JavaScript notions\<close>

text \<open>
  Thrown values are always \<open>Error\<close> objects in this code base; only their
  \<open>message\<close> is ever read.
\<close>

datatype exn = Error (message: string)

text \<open>
  Values that can arrive as an email (a JSON body member or a CSV field).
  \<open>JOther\<close> stands for any object or array (always truthy, never a string).
\<close>

datatype jsval = JUndefined | JNull | JBool bool | JNum int | JStr string | JOther

text \<open>Observable effects: dialling a host, writing a command line, sleeping.\<close>

datatype event =
    Dial "nat option" string
  | Send nat string
  | Sleep int

section \<open>Proxy pool (server/lib/proxyManager.js)\<close>

definition MAX_FAILURES :: int where "MAX_FAILURES = 3"
definition MAX_CONNECTIONS :: int where "MAX_CONNECTIONS = 3"
definition COOLDOWN_PERIOD :: int where "COOLDOWN_PERIOD = 30000"

record Proxy =
  host :: string
  port :: int
  username :: "string option"
  password :: "string option"
  failures :: int
  lastUsed :: int
  connections :: int

record ProxyManager =
  proxies :: "Proxy list"
  currentIndex :: nat

text \<open>
  The process state: the singleton \<open>proxyManager\<close>, the number of
  \<open>Date.now()\<close> readings taken so far (the readings themselves are a
  parameter \<open>clock\<close> of the functions that take them), the number of
  sockets opened so far, and the effects observed so far (latest last).
  A proxy handle is its index in \<open>proxies\<close>: the array is only assigned at
  start-up, and every handle is one of its elements.
\<close>

record World =
  pool :: ProxyManager
  tick :: nat
  opened :: nat
  trace :: "event list"

text \<open>The condition of the \<open>if\<close> inside the scan loop of \<open>getNextProxy\<close>.\<close>

definition skipped :: "int \<Rightarrow> Proxy \<Rightarrow> bool" where
  "skipped now proxy \<longleftrightarrow>
     failures proxy \<ge> MAX_FAILURES \<or>
     connections proxy \<ge> MAX_CONNECTIONS \<or>
     now - lastUsed proxy < COOLDOWN_PERIOD"

text \<open>
  The \<open>while (attempts < this.proxies.length)\<close> loop. Reading
  \<open>this.proxies[this.currentIndex]\<close> out of range gives \<open>undefined\<close>, the
  cursor is advanced, and \<open>proxy.failures\<close> then throws a TypeError.
\<close>

function scan :: "int \<Rightarrow> ProxyManager \<Rightarrow> nat \<Rightarrow> (exn + nat option) \<times> ProxyManager" where
  "scan now pm attempts =
     (if attempts < length (proxies pm) then
        (let i = currentIndex pm;
             pm1 = pm\<lparr>currentIndex := (i + 1) mod length (proxies pm)\<rparr>
         in if i < length (proxies pm) then
              (let proxy = proxies pm ! i
               in if skipped now proxy then scan now pm1 (attempts + 1)
                  else (Inr (Some i),
                        pm1\<lparr>proxies := (proxies pm)
                               [i := proxy\<lparr>lastUsed := now,
                                          connections := connections proxy + 1\<rparr>]\<rparr>))
            else (Inl (Error ''Cannot read properties of undefined (reading 'failures')''), pm1))
      else (Inr None, pm))"
  by pat_completeness auto
termination
  by (relation "measure (\<lambda>(now, pm, attempts). length (proxies pm) - attempts)") auto

declare scan.simps [simp del]

definition resetProxy :: "Proxy \<Rightarrow> Proxy" where
  "resetProxy p = p\<lparr>failures := 0, connections := 0, lastUsed := 0\<rparr>"

lemma scan_proxies_None:
  "scan now pm a = (Inr None, pm') \<Longrightarrow> proxies pm' = proxies pm"
proof (induction now pm a rule: scan.induct)
  case (1 now pm attempts)
  show ?case
  proof (cases "attempts < length (proxies pm)")
    case False
    with "1.prems" show ?thesis by (simp add: scan.simps)
  next
    case True
    note lt = this
    show ?thesis
    proof (cases "currentIndex pm < length (proxies pm)")
      case False
      with lt "1.prems" show ?thesis by (simp add: scan.simps Let_def)
    next
      case True
      note inr = this
      show ?thesis
      proof (cases "skipped now (proxies pm ! currentIndex pm)")
        case False
        with lt inr "1.prems" show ?thesis by (simp add: scan.simps Let_def)
      next
        case True
        with lt inr "1.prems"
        have "scan now (pm\<lparr>currentIndex := (currentIndex pm + 1) mod length (proxies pm)\<rparr>)
                (attempts + 1) = (Inr None, pm')"
          by (simp add: scan.simps [of now pm] Let_def)
        with "1.IH" [OF lt refl refl inr refl True] show ?thesis by simp
      qed
    qed
  qed
qed

text \<open>
  \<open>getNextProxy\<close>. The recursive call after the global reset takes a fresh
  \<open>Date.now()\<close> reading.
\<close>

function getNextProxy :: "(nat \<Rightarrow> int) \<Rightarrow> World \<Rightarrow> (exn + nat option) \<times> World" where
  "getNextProxy clock w =
     (if length (proxies (pool w)) = 0 then (Inr None, w)
      else
        (let now = clock (tick w);
             w1 = w\<lparr>tick := tick w + 1\<rparr>
         in case scan now (pool w) 0 of
              (Inl e, pm) \<Rightarrow> (Inl e, w1\<lparr>pool := pm\<rparr>)
            | (Inr (Some i), pm) \<Rightarrow> (Inr (Some i), w1\<lparr>pool := pm\<rparr>)
            | (Inr None, pm) \<Rightarrow>
                if list_all (\<lambda>p. failures p \<ge> MAX_FAILURES) (proxies pm)
                then getNextProxy clock
                       (w1\<lparr>pool := pm\<lparr>proxies := map resetProxy (proxies pm)\<rparr>\<rparr>)
                else (Inr None, w1\<lparr>pool := pm\<rparr>)))"
  by pat_completeness auto
termination
proof (relation "measure (\<lambda>(clock, w).
          if \<exists>p \<in> set (proxies (pool w)). failures p \<ge> MAX_FAILURES then 1 else 0)",
       goal_cases)
  case 1
  show ?case by simp
next
  case (2 clock w now w1 r pm b)
  from 2(4) 2(5) 2(6) have sc: "scan now (pool w) 0 = (Inr None, pm)" by simp
  have same: "proxies pm = proxies (pool w)" by (rule scan_proxies_None [OF sc])
  from 2(1) obtain p where p: "p \<in> set (proxies (pool w))"
    by (cases "proxies (pool w)") auto
  with 2(7) same have "failures p \<ge> MAX_FAILURES" by (simp add: list_all_iff)
  with p have old: "\<exists>p \<in> set (proxies (pool w)). failures p \<ge> MAX_FAILURES" by blast
  have new: "\<not> (\<exists>p \<in> set (map resetProxy (proxies pm)). failures p \<ge> MAX_FAILURES)"
    by (auto simp: resetProxy_def MAX_FAILURES_def)
  from old new show ?case by (simp add: 2(3))
qed

declare getNextProxy.simps [simp del]

subsection \<open>Notions for the statements about the pool\<close>

text \<open>
  Notation for the statements about \<open>getNextProxy\<close>: the \<open>k\<close>-th index scanned
  from the cursor, the state after handing out entry \<open>i\<close> at time \<open>now\<close>
  (\<open>proxy.lastUsed = now; proxy.connections++\<close>, cursor behind \<open>i\<close>, one clock
  reading taken), and the state after the global reset of the \<open>forEach\<close>.
\<close>

definition cyc :: "ProxyManager \<Rightarrow> nat \<Rightarrow> nat" where
  "cyc pm k = (currentIndex pm + k) mod length (proxies pm)"

definition acquired :: "int \<Rightarrow> nat \<Rightarrow> World \<Rightarrow> World" where
  "acquired now i w =
     w\<lparr>tick := tick w + 1,
       pool := (pool w)
         \<lparr>currentIndex := (i + 1) mod length (proxies (pool w)),
          proxies := (proxies (pool w))
            [i := (proxies (pool w) ! i)
                    \<lparr>lastUsed := now,
                     connections := connections (proxies (pool w) ! i) + 1\<rparr>]\<rparr>\<rparr>"

definition resetAll :: "World \<Rightarrow> World" where
  "resetAll w =
     w\<lparr>tick := tick w + 1,
       pool := (pool w)\<lparr>proxies := map resetProxy (proxies (pool w))\<rparr>\<rparr>"

text \<open>Two small pools used as concrete inputs.\<close>

definition proxyA :: Proxy where
  "proxyA = \<lparr>host = ''10.0.0.1'', port = 1080, username = None, password = None,
             failures = 3, lastUsed = 0, connections = 0\<rparr>"

definition proxyB :: Proxy where
  "proxyB = \<lparr>host = ''10.0.0.2'', port = 1080, username = Some ''u'', password = Some ''p'',
             failures = 0, lastUsed = 0, connections = 2\<rparr>"

definition world1 :: World where
  "world1 = \<lparr>pool = \<lparr>proxies = [proxyA, proxyB], currentIndex = 0\<rparr>,
             tick = 0, opened = 0, trace = []\<rparr>"

definition world2 :: World where
  "world2 = \<lparr>pool = \<lparr>proxies = [proxyA, proxyA], currentIndex = 1\<rparr>,
             tick = 0, opened = 0, trace = []\<rparr>"

section \<open>Strings and regular expressions\<close>

text \<open>
  JavaScript strings are modelled as \<open>string\<close>; the code points that matter here
  (ASCII letters, digits, punctuation, CR and LF) are single characters.
  \<open>s.startsWith(p)\<close>, \<open>s.includesStr(p)\<close>, \<open>s.substring(n)\<close> and \<open>s.split(sep)\<close>
  for a non-empty separator:
\<close>

definition startsWith :: "string \<Rightarrow> string \<Rightarrow> bool" where
  "startsWith s p \<longleftrightarrow> take (length p) s = p"

fun includesStr :: "string \<Rightarrow> string \<Rightarrow> bool" where
  "includesStr [] p = (p = [])"
| "includesStr (c # cs) p = (startsWith (c # cs) p \<or> includesStr cs p)"

function splitFrom :: "string \<Rightarrow> string \<Rightarrow> string \<Rightarrow> string list" where
  "splitFrom sep piece s =
     (if s = [] then [piece]
      else if sep \<noteq> [] \<and> startsWith s sep
        then piece # splitFrom sep [] (drop (length sep) s)
        else splitFrom sep (piece @ [hd s]) (tl s))"
  by pat_completeness auto
termination
  by (relation "measure (\<lambda>(sep, piece, s). length s)") auto

declare splitFrom.simps [simp del]

definition split :: "string \<Rightarrow> string \<Rightarrow> string list" where
  "split s sep = splitFrom sep [] s"

definition CRLF :: string where
  "CRLF = [CHR 0x0D, CHR 0x0A]"

text \<open>
  The fragment of regular expressions the two patterns of the code use: a character
  class given by its ranges, the dot (any character but a line terminator),
  sequencing, an optional group, and a repetition \<open>{m,n}\<close> or \<open>{m,}\<close>
  (\<open>*\<close> is \<open>{0,}\<close>, \<open>+\<close> is \<open>{1,}\<close>).
\<close>

datatype rx =
    Cls "(char \<times> char) list"
  | Dot
  | Seq rx rx
  | Opt rx
  | Rep nat "nat option" rx

definition inCls :: "(char \<times> char) list \<Rightarrow> char \<Rightarrow> bool" where
  "inCls ranges c \<longleftrightarrow>
     list_ex (\<lambda>(lo, hi). (of_char lo :: nat) \<le> of_char c \<and> (of_char c :: nat) \<le> of_char hi) ranges"

text \<open>
  \<open>upto f n s\<close>: what is left of \<open>s\<close> after between 0 and \<open>n\<close> rounds of \<open>f\<close>;
  \<open>exactly f m s\<close>: after exactly \<open>m\<close> rounds.
\<close>

fun upto :: "(string \<Rightarrow> string list) \<Rightarrow> nat \<Rightarrow> string \<Rightarrow> string list" where
  "upto f 0 s = [s]"
| "upto f (Suc n) s = s # concat (map (upto f n) (f s))"

fun exactly :: "(string \<Rightarrow> string list) \<Rightarrow> nat \<Rightarrow> string \<Rightarrow> string list" where
  "exactly f 0 s = [s]"
| "exactly f (Suc m) s = concat (map (exactly f m) (f s))"

text \<open>
  \<open>rests r s\<close> lists what can remain of \<open>s\<close> after \<open>r\<close> has matched a prefix of it.
  An unbounded repetition needs no more rounds than \<open>s\<close> has characters: a round that
  consumes nothing adds no new remainder.
\<close>

fun rests :: "rx \<Rightarrow> string \<Rightarrow> string list" where
  "rests (Cls ranges) s = (case s of [] \<Rightarrow> [] | c # cs \<Rightarrow> if inCls ranges c then [cs] else [])"
| "rests Dot s =
     (case s of [] \<Rightarrow> [] | c # cs \<Rightarrow> if c = CHR 0x0A \<or> c = CHR 0x0D then [] else [cs])"
| "rests (Seq a b) s = concat (map (rests b) (rests a s))"
| "rests (Opt a) s = rests a s @ [s]"
| "rests (Rep m n a) s =
     concat (map (upto (rests a) (case n of None \<Rightarrow> length s | Some k \<Rightarrow> k - m))
                 (exactly (rests a) m s))"

text \<open>\<open>/^r$/.test(s)\<close>: the whole of \<open>s\<close> is matched.\<close>

definition test :: "rx \<Rightarrow> string \<Rightarrow> bool" where
  "test r s \<longleftrightarrow> [] \<in> set (rests r s)"

definition alnum :: "(char \<times> char) list" where
  "alnum = [(CHR ''a'', CHR ''z''), (CHR ''A'', CHR ''Z''), (CHR ''0'', CHR ''9'')]"

definition lit :: "char \<Rightarrow> rx" where
  "lit c = Cls [(c, c)]"

section \<open>Format check (server/validators/email.js)\<close>

text \<open>
  \<^verbatim>\<open>/^[a-zA-Z0-9](?:[a-zA-Z0-9._%+-]{0,61}[a-zA-Z0-9])?@[a-zA-Z0-9](?:[a-zA-Z0-9-]*[a-zA-Z0-9])?(?:\.[a-zA-Z]{2,})+$/\<close>
\<close>

definition localRegex :: rx where
  "localRegex =
     Seq (Cls alnum)
         (Opt (Seq (Rep 0 (Some 61)
                      (Cls (alnum @ [(CHR ''.'', CHR ''.''), (CHR ''_'', CHR ''_''),
                                     (CHR ''%'', CHR ''%''), (CHR ''+'', CHR ''+''),
                                     (CHR ''-'', CHR ''-'')])))
                   (Cls alnum)))"

definition domainRegex :: rx where
  "domainRegex =
     Seq (Cls alnum)
      (Seq (Opt (Seq (Rep 0 None (Cls (alnum @ [(CHR ''-'', CHR ''-'')]))) (Cls alnum)))
           (Rep 1 None
              (Seq (lit CHR ''.'')
                   (Rep 2 None (Cls [(CHR ''a'', CHR ''z''), (CHR ''A'', CHR ''Z'')])))))"

definition emailRegex :: rx where
  "emailRegex = Seq localRegex (Seq (lit CHR ''@'') domainRegex)"

text \<open>\<open>if (!email || typeof email !== 'string') return false;\<close>\<close>

fun validateEmailFormat :: "jsval \<Rightarrow> bool" where
  "validateEmailFormat (JStr s) = (s \<noteq> [] \<and> test emailRegex s)"
| "validateEmailFormat _ = False"

section \<open>Reading an SMTP response (server/validators/smtp.js)\<close>

text \<open>\<^verbatim>\<open>/^[0-9]{3}(?:[ -].*)?$/\<close>\<close>

definition responseRegex :: rx where
  "responseRegex =
     Seq (Rep 3 (Some 3) (Cls [(CHR ''0'', CHR ''9'')]))
         (Opt (Seq (Cls [(CHR '' '', CHR '' ''), (CHR ''-'', CHR ''-'')]) (Rep 0 None Dot)))"

text \<open>
  \<open>readResponse\<close> over the chunks that arrive before the timeout fires, in order.
  \<open>handleData\<close> appends each chunk to \<open>response\<close> and resolves with the first line of
  the buffer that matches; when the chunks run out the timeout rejects with
  \<open>Response timeout\<close> (\<open>None\<close>).
\<close>

fun handleData :: "string \<Rightarrow> string list \<Rightarrow> string option" where
  "handleData response [] = None"
| "handleData response (d # ds) =
     (let response' = response @ d
      in if includesStr response' CRLF
         then (case find (test responseRegex) (split response' CRLF) of
                 Some line \<Rightarrow> Some line
               | None \<Rightarrow> handleData response' ds)
         else handleData response' ds)"

definition readResponse :: "string list \<Rightarrow> exn + string" where
  "readResponse chunks =
     (case handleData [] chunks of
        None \<Rightarrow> Inl (Error ''Response timeout'')
      | Some line \<Rightarrow> Inr line)"

subsection \<open>Notions for the statements about the patterns\<close>

text \<open>
  Two readings of a pattern used in the statements below: the characters its atoms
  accept, and the length of the longest string it matches when that is bounded.
\<close>

fun atoms :: "rx \<Rightarrow> char \<Rightarrow> bool" where
  "atoms (Cls ranges) c = inCls ranges c"
| "atoms Dot c = (c \<noteq> CHR 0x0A \<and> c \<noteq> CHR 0x0D)"
| "atoms (Seq a b) c = (atoms a c \<or> atoms b c)"
| "atoms (Opt a) c = atoms a c"
| "atoms (Rep m n a) c = atoms a c"

fun maxLen :: "rx \<Rightarrow> nat option" where
  "maxLen (Cls ranges) = Some 1"
| "maxLen Dot = Some 1"
| "maxLen (Seq a b) =
     (case maxLen a of None \<Rightarrow> None
      | Some i \<Rightarrow> (case maxLen b of None \<Rightarrow> None | Some j \<Rightarrow> Some (i + j)))"
| "maxLen (Opt a) = maxLen a"
| "maxLen (Rep m n a) =
     (case n of None \<Rightarrow> None
      | Some k \<Rightarrow> (case maxLen a of None \<Rightarrow> None | Some i \<Rightarrow> Some ((m + (k - m)) * i)))"

text \<open>
  \<open>consumed A bound s t\<close>: \<open>t\<close> is what is left of \<open>s\<close> after a prefix made of characters
  in \<open>A\<close>, no longer than \<open>bound\<close> when there is one.
\<close>

definition consumed :: "(char \<Rightarrow> bool) \<Rightarrow> nat option \<Rightarrow> string \<Rightarrow> string \<Rightarrow> bool" where
  "consumed A bound s t \<longleftrightarrow>
     (\<exists>p. s = p @ t \<and> (\<forall>c \<in> set p. A c) \<and> (\<forall>n. bound = Some n \<longrightarrow> length p \<le> n))"

definition plusBound :: "nat option \<Rightarrow> nat option \<Rightarrow> nat option" where
  "plusBound a b = (case a of None \<Rightarrow> None | Some i \<Rightarrow> (case b of None \<Rightarrow> None | Some j \<Rightarrow> Some (i + j)))"

definition timesBound :: "nat \<Rightarrow> nat option \<Rightarrow> nat option" where
  "timesBound k b = (case b of None \<Rightarrow> None | Some i \<Rightarrow> Some (k * i))"

text \<open>
  For the statements about \<open>readResponse\<close>: the buffer after the chunks up to number
  \<open>k\<close> have arrived; a buffer none of whose lines can be resolved with; and the line
  a buffer is resolved with, the first of its lines in order that matches.
\<close>

definition buffered :: "string list \<Rightarrow> nat \<Rightarrow> string" where
  "buffered chunks k = concat (take (Suc k) chunks)"

definition noMatch :: "string \<Rightarrow> bool" where
  "noMatch response \<longleftrightarrow>
     \<not> includesStr response CRLF \<or>
     (\<forall>l \<in> set (split response CRLF). \<not> test responseRegex l)"

definition firstMatching :: "string \<Rightarrow> string \<Rightarrow> bool" where
  "firstMatching response line \<longleftrightarrow>
     includesStr response CRLF \<and>
     (\<exists>i < length (split response CRLF).
        split response CRLF ! i = line \<and> test responseRegex line \<and>
        (\<forall>j < i. \<not> test responseRegex (split response CRLF ! j)))"

text \<open>
  A banner line followed by a two-line reply, arriving in three chunks that cut the
  lines in the middle.
\<close>

definition cutReply :: "string list" where
  "cutReply = [''hello'' @ CRLF @ ''25'', ''0-mx.example.com'' @ CRLF @ ''250 E'', ''ND'' @ CRLF]"

text \<open>A three-line reply to \<open>EHLO\<close>, and a local part of 64 characters.\<close>

definition ehloReply :: string where
  "ehloReply = ''250-mx.example.com'' @ CRLF @ ''250-SIZE 35882577'' @ CRLF @ ''250 END'' @ CRLF"

definition local64 :: string where
  "local64 = replicate 64 CHR ''a''"

section \<open>The outside world\<close>

record MXRecord =
  exchange :: string
  priority :: int

text \<open>
  Everything the code reads from outside, as parameters:
  \<^item> \<open>dateNow k\<close>: the \<open>k\<close>-th reading of \<open>Date.now()\<close>;
  \<^item> \<open>connectError n proxy target\<close>: whether opening socket number \<open>n\<close> to \<open>target\<close>
    (through \<open>proxy\<close>, or directly for \<open>None\<close>) fails, and with which error;
  \<^item> \<open>incoming n cmds\<close>: the chunks socket \<open>n\<close> delivers to the next \<open>readResponse\<close>
    before its timeout, after the command lines \<open>cmds\<close> were written to it;
  \<^item> \<open>fromAddress n\<close>: the random sender \<open>verify.<token>@<one of VALID_DOMAINS>\<close>
    synthesised on socket \<open>n\<close>;
  \<^item> \<open>resolve domain rrtype\<close>, \<open>resolveMx\<close>, \<open>resolveTxt\<close>: the DNS library calls.
\<close>

record Net =
  dateNow :: "nat \<Rightarrow> int"
  connectError :: "nat \<Rightarrow> nat option \<Rightarrow> string \<Rightarrow> exn option"
  incoming :: "nat \<Rightarrow> string list \<Rightarrow> string list"
  fromAddress :: "nat \<Rightarrow> string"
  resolve :: "string \<Rightarrow> string \<Rightarrow> exn + string list"
  resolveMx :: "string \<Rightarrow> exn + MXRecord list"
  resolveTxt :: "string \<Rightarrow> exn + string list list"

section \<open>Proxy bookkeeping and connections (server/lib/proxyManager.js)\<close>

definition onProxy :: "nat \<Rightarrow> (Proxy \<Rightarrow> Proxy) \<Rightarrow> World \<Rightarrow> World" where
  "onProxy i f w =
     w\<lparr>pool := (pool w)\<lparr>proxies := (proxies (pool w))[i := f (proxies (pool w) ! i)]\<rparr>\<rparr>"

fun markProxyFailure :: "nat option \<Rightarrow> World \<Rightarrow> World" where
  "markProxyFailure None w = w"
| "markProxyFailure (Some i) w =
     onProxy i (\<lambda>p. p\<lparr>failures := failures p + 1,
                        connections := max 0 (connections p - 1)\<rparr>) w"

fun markProxySuccess :: "nat option \<Rightarrow> World \<Rightarrow> World" where
  "markProxySuccess None w = w"
| "markProxySuccess (Some i) w = onProxy i (\<lambda>p. p\<lparr>failures := 0\<rparr>) w"

fun releaseProxy :: "nat option \<Rightarrow> World \<Rightarrow> World" where
  "releaseProxy None w = w"
| "releaseProxy (Some i) w =
     onProxy i (\<lambda>p. p\<lparr>connections := max 0 (connections p - 1)\<rparr>) w"

definition emit :: "event \<Rightarrow> World \<Rightarrow> World" where
  "emit ev w = w\<lparr>trace := trace w @ [ev]\<rparr>"

text \<open>
  A socket: its number, the proxy its \<open>close\<close> handler releases (none for a direct
  socket, which gets no handler), the command lines written to it, and
  \<open>socket.destroyed\<close>. A socket that fails or idles during a dialog shows in the
  model as a read that ends in \<open>Response timeout\<close>; its \<open>error\<close> and \<open>timeout\<close>
  handlers are not modelled.
\<close>

record Socket =
  sid :: nat
  via :: "nat option"
  written :: "string list"
  destroyed :: bool

text \<open>
  \<open>createProxyConnection\<close>: without a proxy a direct \<open>net.Socket\<close>; with one, a SOCKS5
  connection whose failure marks the proxy and is rethrown.
\<close>

definition createProxyConnection ::
    "Net \<Rightarrow> nat option \<Rightarrow> string \<Rightarrow> World \<Rightarrow> (exn + Socket) \<times> World" where
  "createProxyConnection net proxy targetHost w =
     (let n = opened w;
          w1 = emit (Dial proxy targetHost) (w\<lparr>opened := n + 1\<rparr>)
      in case connectError net n proxy targetHost of
           None \<Rightarrow> (Inr \<lparr>sid = n, via = proxy, written = [], destroyed = False\<rparr>, w1)
         | Some e \<Rightarrow> (Inl e, markProxyFailure proxy w1))"

section \<open>The SMTP dialog (server/validators/smtp.js)\<close>

definition SMTP_MAX_RETRIES :: nat where "SMTP_MAX_RETRIES = 3"
definition SMTP_RETRY_DELAY :: int where "SMTP_RETRY_DELAY = 2000"

text \<open>Sequencing of steps that may throw: the first exception ends the sequence.\<close>

definition andThen ::
    "(exn + 'a) \<times> 's \<Rightarrow> ('a \<Rightarrow> 's \<Rightarrow> (exn + 'b) \<times> 's) \<Rightarrow> (exn + 'b) \<times> 's" where
  "andThen r f = (case r of (Inl e, s) \<Rightarrow> (Inl e, s) | (Inr a, s) \<Rightarrow> f a s)"

text \<open>
  \<open>writeCommand\<close> rejects on a destroyed socket; a write on an open socket is taken
  to succeed. \<open>awaitResponse\<close> is \<open>readResponse\<close> on the chunks the socket delivers.
\<close>

definition writeCommand :: "string \<Rightarrow> Socket \<times> World \<Rightarrow> (exn + unit) \<times> (Socket \<times> World)" where
  "writeCommand command st =
     (case st of (socket, w) \<Rightarrow>
        if destroyed socket then (Inl (Error ''Socket is closed''), st)
        else (Inr (), (socket\<lparr>written := written socket @ [command]\<rparr>,
                       emit (Send (sid socket) command) w)))"

definition awaitResponse :: "Net \<Rightarrow> Socket \<times> World \<Rightarrow> (exn + string) \<times> (Socket \<times> World)" where
  "awaitResponse net st =
     (case st of (socket, w) \<Rightarrow>
        (readResponse (incoming net (sid socket) (written socket)), st))"

definition throw :: "string \<Rightarrow> 's \<Rightarrow> (exn + 'a) \<times> 's" where
  "throw msg st = (Inl (Error msg), st)"

text \<open>
  The conversation of one attempt, from the greeting to the reply to \<open>RCPT TO\<close>,
  which is its result.
\<close>

definition dialog ::
    "Net \<Rightarrow> string \<Rightarrow> string \<Rightarrow> Socket \<times> World \<Rightarrow> (exn + string) \<times> (Socket \<times> World)" where
  "dialog net em domain st0 =
     andThen (awaitResponse net st0) (\<lambda>greeting st.
       if \<not> startsWith greeting ''220'' then throw ''Invalid server greeting'' st
       else
     andThen (writeCommand (''EHLO '' @ domain) st) (\<lambda>_ st.
     andThen (awaitResponse net st) (\<lambda>ehloResponse st.
     andThen
       (if \<not> startsWith ehloResponse ''250'' then
          andThen (writeCommand (''HELO '' @ domain) st) (\<lambda>_ st.
          andThen (awaitResponse net st) (\<lambda>ehloResponse st.
            if \<not> startsWith ehloResponse ''250'' then throw ''HELO/EHLO failed'' st
            else (Inr (), st)))
        else (Inr (), st)) (\<lambda>_ st.
     andThen (writeCommand (''MAIL FROM:<'' @ fromAddress net (sid (fst st)) @ ''>'') st) (\<lambda>_ st.
     andThen (awaitResponse net st) (\<lambda>fromResponse st.
       if \<not> startsWith fromResponse ''250'' then throw ''MAIL FROM failed'' st
       else
     andThen (writeCommand (''RCPT TO:<'' @ em @ ''>'') st) (\<lambda>_ st.
     awaitResponse net st)))))))"

text \<open>
  The result object of \<open>verifyMailbox\<close>. \<open>code\<close> holds the three characters that
  \<open>parseInt\<close> reads. No result object has an \<open>isCatchAll\<close> property, so reading it
  gives \<open>undefined\<close> (\<open>None\<close>).
\<close>

record VerifyResult =
  success :: bool
  mailboxExists :: bool
  code :: "string option"
  rmessage :: "string option"
  error :: "string option"

definition isCatchAll :: "VerifyResult \<Rightarrow> bool option" where
  "isCatchAll verifyResult = None"

text \<open>
  \<open>cleanup\<close>: on a socket that is not destroyed, \<open>QUIT\<close> is written, a reply is
  awaited and ignored, and the socket is ended and destroyed, which fires its
  \<open>close\<close> handler (\<open>releaseProxy\<close>). The code runs the handler on a later turn of the
  event loop: during the pause before the next round when there is one, and otherwise
  after \<open>verifyMailbox\<close> has returned, so that a \<open>getNextProxy\<close> called right after it
  still counts this connection. The model runs the handler at the \<open>destroy\<close>: its
  counts are those of the code once the pending handlers have run, and one lower per
  pending handler in between.
\<close>

definition cleanup :: "Socket option \<times> World \<Rightarrow> Socket option \<times> World" where
  "cleanup st =
     (case st of
        (None, w) \<Rightarrow> (None, w)
      | (Some socket, w) \<Rightarrow>
          if destroyed socket then (Some socket, w)
          else (case writeCommand ''QUIT'' (socket, w) of
                  (_, (socket1, w1)) \<Rightarrow>
                    (Some (socket1\<lparr>destroyed := True\<rparr>), releaseProxy (via socket1) w1)))"

definition sleep :: "int \<Rightarrow> World \<Rightarrow> World" where
  "sleep ms w = emit (Sleep ms) w"

text \<open>
  What \<open>verifyMailbox\<close> returns after a completed dialog, from the reply to
  \<open>RCPT TO\<close>: \<open>code = rcptResponse.substring(0, 3)\<close>, the mailbox exists for \<open>2xx\<close>, 451
  and 452.
\<close>

definition rcptOutcome :: "string \<Rightarrow> VerifyResult" where
  "rcptOutcome rcptResponse =
     (let code = take 3 rcptResponse;
          exists = (startsWith code ''2'' \<or> code = ''451'' \<or> code = ''452'')
      in \<lparr>success = True, mailboxExists = exists, code = Some code,
           rmessage = Some (drop 4 rcptResponse), error = None\<rparr>)"

text \<open>
  The \<open>try\<close> block of one round of the \<open>while\<close> loop of \<open>verifyMailbox\<close>, with the
  variables \<open>socket\<close> and \<open>currentProxy\<close> that outlive it.
\<close>

definition attempt ::
    "Net \<Rightarrow> string \<Rightarrow> string \<Rightarrow> string \<Rightarrow> Socket option \<times> nat option \<Rightarrow> World
       \<Rightarrow> (exn + VerifyResult) \<times> (Socket option \<times> nat option) \<times> World" where
  "attempt net mxhost em domain vars w =
     (case vars of (socket, currentProxy) \<Rightarrow>
      case getNextProxy (dateNow net) w of
        (Inl e, w1) \<Rightarrow> (Inl e, (socket, currentProxy), w1)
      | (Inr None, w1) \<Rightarrow> (Inl (Error ''No available proxies''), (socket, None), w1)
      | (Inr (Some i), w1) \<Rightarrow>
          (case createProxyConnection net (Some i) mxhost w1 of
             (Inl e, w2) \<Rightarrow> (Inl e, (socket, Some i), w2)
           | (Inr s, w2) \<Rightarrow>
               (case dialog net em domain (s, w2) of
                  (Inl e, (s', w3)) \<Rightarrow> (Inl e, (Some s', Some i), w3)
                | (Inr rcptResponse, (s', w3)) \<Rightarrow>
                    (case cleanup (Some s', markProxySuccess (Some i) w3) of
                       (socket', w5) \<Rightarrow>
                         (Inr (rcptOutcome rcptResponse), (socket', Some i), w5)))))"

function verifyLoop ::
    "Net \<Rightarrow> string \<Rightarrow> string \<Rightarrow> string \<Rightarrow> Socket option \<times> nat option \<Rightarrow> nat \<Rightarrow> World
       \<Rightarrow> VerifyResult \<times> World" where
  "verifyLoop net mxhost em domain vars retryCount w =
     (if retryCount < SMTP_MAX_RETRIES then
        (case attempt net mxhost em domain vars w of
           (Inr res, vars', w') \<Rightarrow> (res, w')
         | (Inl e, (socket, currentProxy), w') \<Rightarrow>
             (let w1 = markProxyFailure currentProxy w'
              in case cleanup (socket, w1) of
                   (socket', w2) \<Rightarrow>
                     verifyLoop net mxhost em domain (socket', currentProxy) (retryCount + 1)
                       (if retryCount + 1 < SMTP_MAX_RETRIES
                        then sleep (SMTP_RETRY_DELAY * int (retryCount + 1)) w2
                        else w2)))
      else (\<lparr>success = False, mailboxExists = False, code = None, rmessage = None,
              error = Some ''Verification failed after 3 attempts''\<rparr>, w))"
  by pat_completeness auto
termination
  by (relation "measure (\<lambda>(net, mxhost, em, domain, vars, retryCount, w).
                  SMTP_MAX_RETRIES - retryCount)") auto

declare verifyLoop.simps [simp del]

text \<open>
  \<open>verifyMailbox\<close>. Its \<open>config\<close> argument only sets the read timeout, which is part of
  \<open>incoming\<close> here.
\<close>

definition verifyMailbox :: "Net \<Rightarrow> string \<Rightarrow> string \<Rightarrow> string \<Rightarrow> World \<Rightarrow> VerifyResult \<times> World" where
  "verifyMailbox net mxhost em domain w = verifyLoop net mxhost em domain (None, None) 0 w"

function showNat :: "nat \<Rightarrow> string" where
  "showNat n =
     (if n < 10 then [char_of (48 + n)]
      else showNat (n div 10) @ [char_of (48 + n mod 10)])"
  by pat_completeness auto
termination
  by (relation "measure id") auto

declare showNat.simps [simp del]

definition verifyBackoff :: "nat \<Rightarrow> int" where
  "verifyBackoff retryCount = SMTP_RETRY_DELAY * 2 ^ retryCount"

text \<open>
  \<open>verifyMailboxWithRetry\<close>. \<open>verifyMailbox\<close> never throws, so the \<open>catch\<close> of this
  loop has nothing to catch.
\<close>

function retryLoop ::
    "Net \<Rightarrow> string \<Rightarrow> string \<Rightarrow> string \<Rightarrow> nat \<Rightarrow> nat \<Rightarrow> string option \<Rightarrow> World
       \<Rightarrow> VerifyResult \<times> World" where
  "retryLoop net mxhost em domain maxRetries retryCount lastError w =
     (if retryCount < maxRetries then
        (case verifyMailbox net mxhost em domain w of
           (result, w1) \<Rightarrow>
             if success result then (result, w1)
             else retryLoop net mxhost em domain maxRetries (retryCount + 1)
                    (Some (case error result of
                             None \<Rightarrow> ''Verification failed''
                           | Some m \<Rightarrow> if m = [] then ''Verification failed'' else m))
                    (if retryCount + 1 < maxRetries then sleep (verifyBackoff retryCount) w1
                     else w1))
      else (\<lparr>success = False, mailboxExists = False, code = None, rmessage = None,
              error = Some (case lastError of
                              None \<Rightarrow> ''Verification failed after '' @ showNat maxRetries
                                        @ '' attempts''
                            | Some m \<Rightarrow>
                                if m = []
                                then ''Verification failed after '' @ showNat maxRetries
                                       @ '' attempts''
                                else m)\<rparr>, w))"
  by pat_completeness auto
termination
  by (relation "measure (\<lambda>(net, mxhost, em, domain, maxRetries, retryCount, lastError, w).
                  maxRetries - retryCount)") auto

declare retryLoop.simps [simp del]

section \<open>Provider profiles (server/validators/providers.js)\<close>

record ProviderConfig =
  domains :: "string list"
  mxDomains :: "string list"
  reliable :: bool
  heloHost :: "string option"
  requireTLS :: bool
  rejectCatchAll :: bool
  timeout :: int
  acceptCodes :: "int list"
  rejectCodes :: "int list"
  retryAttempts :: int
  customValidation :: bool
  provider :: string

definition PROVIDERS :: "ProviderConfig list" where
  "PROVIDERS =
     [\<lparr>domains = [''gmail.com'', ''googlemail.com''],
       mxDomains = [''google.com'', ''googlemail.com'', ''gmail.com''],
       reliable = True, heloHost = Some ''gmail-smtp-in.l.google.com'',
       requireTLS = True, rejectCatchAll = True, timeout = 15000,
       acceptCodes = [250], rejectCodes = [550, 551, 552, 553, 554],
       retryAttempts = 2, customValidation = False, provider = ''gmail.com''\<rparr>,
      \<lparr>domains = [''outlook.com'', ''hotmail.com'', ''live.com'', ''msn.com''],
       mxDomains = [''outlook.com'', ''hotmail.com'', ''microsoft.com''],
       reliable = True, heloHost = Some ''outlook-com.olc.protection.outlook.com'',
       requireTLS = False, rejectCatchAll = True, timeout = 30000,
       acceptCodes = [250, 251, 252], rejectCodes = [550, 551, 552, 553, 554],
       retryAttempts = 3, customValidation = True, provider = ''outlook.com''\<rparr>,
      \<lparr>domains = [''yahoo.com'', ''ymail.com''],
       mxDomains = [''yahoo.com'', ''yahoodns.net''],
       reliable = True, heloHost = Some ''mta7.am0.yahoodns.net'',
       requireTLS = True, rejectCatchAll = True, timeout = 12000,
       acceptCodes = [250], rejectCodes = [550, 551, 552, 553, 554],
       retryAttempts = 2, customValidation = False, provider = ''yahoo.com''\<rparr>]"

definition genericConfig :: ProviderConfig where
  "genericConfig =
     \<lparr>domains = [], mxDomains = [], reliable = False, heloHost = None,
      requireTLS = False, rejectCatchAll = True, timeout = 10000,
      acceptCodes = [250, 251, 252], rejectCodes = [550, 551, 552, 553, 554],
      retryAttempts = 2, customValidation = False, provider = ''generic''\<rparr>"

definition toLowerCase :: "string \<Rightarrow> string" where
  "toLowerCase s =
     map (\<lambda>c. if (of_char CHR ''A'' :: nat) \<le> of_char c \<and> (of_char c :: nat) \<le> of_char CHR ''Z''
              then char_of (of_char c + (32 :: nat)) else c) s"

definition getProviderConfig :: "string \<Rightarrow> ProviderConfig" where
  "getProviderConfig domain =
     (let lowerDomain = toLowerCase domain
      in case find (\<lambda>config. lowerDomain \<in> set (domains config)) PROVIDERS of
           Some config \<Rightarrow> config
         | None \<Rightarrow>
             (case find (\<lambda>config. list_ex (\<lambda>mxDomain. includesStr lowerDomain mxDomain)
                                     (mxDomains config)) PROVIDERS of
                Some config \<Rightarrow> config
              | None \<Rightarrow> genericConfig))"

text \<open>
  \<open>verifyMailboxWithRetry\<close> runs five rounds for the Outlook profile and
  \<open>MAX_RETRIES\<close> otherwise.
\<close>

definition verifyMailboxWithRetry ::
    "Net \<Rightarrow> string \<Rightarrow> string \<Rightarrow> string \<Rightarrow> ProviderConfig \<Rightarrow> World \<Rightarrow> VerifyResult \<times> World" where
  "verifyMailboxWithRetry net mxhost em domain config w =
     retryLoop net mxhost em domain
       (if provider config = ''outlook.com'' then 5 else SMTP_MAX_RETRIES) 0 None w"

section \<open>DNS checks and the pipeline (server/validators/email.js)\<close>

definition checkDNS :: "Net \<Rightarrow> string \<Rightarrow> bool" where
  "checkDNS net domain =
     list_ex (\<lambda>rrtype. case resolve net domain rrtype of Inr _ \<Rightarrow> True | Inl _ \<Rightarrow> False)
       [''A'', ''AAAA'', ''CNAME'']"

definition checkMX :: "Net \<Rightarrow> string \<Rightarrow> MXRecord list option" where
  "checkMX net domain =
     (case resolveMx net domain of
        Inl _ \<Rightarrow> None
      | Inr records \<Rightarrow> if length records > 0 then Some (sort_key priority records) else None)"

definition checkSPF :: "Net \<Rightarrow> string \<Rightarrow> bool \<times> string option" where
  "checkSPF net domain =
     (case resolveTxt net domain of
        Inl _ \<Rightarrow> (False, None)
      | Inr txtRecords \<Rightarrow>
          (let spfRecord = find (\<lambda>record. startsWith record ''v=spf1'') (concat txtRecords)
           in (spfRecord \<noteq> None, spfRecord)))"

text \<open>A missing key of \<open>checks\<close> and the value \<open>undefined\<close> are both \<open>None\<close>.\<close>

record Checks =
  format :: bool
  dns :: bool
  mx :: bool
  spf :: bool
  smtp :: bool
  mailbox :: bool
  catchAll :: "bool option"

record Details =
  mxRecords :: "MXRecord list"
  spfRecord :: "string option"
  smtpResponse :: "VerifyResult option"

record ValidationResult =
  email :: jsval
  valid :: bool
  checks :: Checks
  details :: Details
  reason :: string

definition initialResult :: "jsval \<Rightarrow> ValidationResult" where
  "initialResult v =
     \<lparr>email = v, valid = False,
      checks = \<lparr>format = False, dns = False, mx = False, spf = False, smtp = False,
                mailbox = False, catchAll = Some False\<rparr>,
      details = \<lparr>mxRecords = [], spfRecord = None, smtpResponse = None\<rparr>,
      reason = []\<rparr>"

text \<open>
  The verifier the loop calls for one mail exchanger:
  \<open>providerConfig.provider === 'outlook.com' ? verifyMailboxWithRetry(...) : verifyMailbox(...)\<close>.
\<close>

definition verifyFor ::
    "Net \<Rightarrow> ProviderConfig \<Rightarrow> string \<Rightarrow> string \<Rightarrow> MXRecord \<Rightarrow> World \<Rightarrow> VerifyResult \<times> World" where
  "verifyFor net providerConfig em domain m w =
     (if provider providerConfig = ''outlook.com''
      then verifyMailboxWithRetry net (exchange m) em domain providerConfig w
      else verifyMailbox net (exchange m) em domain w)"

text \<open>
  The \<open>for (const mx of mxRecords)\<close> loop with its variables \<open>result\<close>, \<open>smtpSuccess\<close>
  and \<open>lastError\<close>. Neither verifier throws, so the \<open>catch\<close> inside the loop has
  nothing to catch.
\<close>

fun mxLoop ::
    "Net \<Rightarrow> ProviderConfig \<Rightarrow> string \<Rightarrow> string \<Rightarrow> MXRecord list
       \<Rightarrow> ValidationResult \<times> bool \<times> string option \<Rightarrow> World
       \<Rightarrow> (ValidationResult \<times> bool \<times> string option) \<times> World" where
  "mxLoop net providerConfig em domain [] vars w = (vars, w)"
| "mxLoop net providerConfig em domain (m # ms) vars w =
     (case vars of (result, smtpSuccess, lastError) \<Rightarrow>
      case verifyFor net providerConfig em domain m w of
        (verifyResult, w1) \<Rightarrow>
          if success verifyResult then
            (let result1 = result
                   \<lparr>checks := (checks result)
                       \<lparr>smtp := True, mailbox := mailboxExists verifyResult,
                        catchAll := isCatchAll verifyResult\<rparr>,
                    details := (details result)\<lparr>smtpResponse := Some verifyResult\<rparr>\<rparr>
             in if isCatchAll verifyResult = Some True \<and> rejectCatchAll providerConfig
                then ((result1\<lparr>valid := False, reason := ''Catch-all domain detected''\<rparr>,
                       smtpSuccess, lastError), w1)
                else if mailbox (checks result1)
                then ((result1, True, lastError), w1)
                else mxLoop net providerConfig em domain ms
                       (result1, smtpSuccess, error verifyResult) w1)
          else mxLoop net providerConfig em domain ms
                 (result, smtpSuccess, error verifyResult) w1)"

text \<open>
  The \<open>try\<close> block of \<open>validateEmail\<close>. It works on \<open>result\<close> in place, so the object
  is part of the state also when the block throws. With fewer than two pieces from
  \<open>email.split('@')\<close>, \<open>domain\<close> is \<open>undefined\<close> and \<open>domain.length\<close> throws.
\<close>

definition validateBody ::
    "Net \<Rightarrow> jsval \<Rightarrow> ValidationResult \<times> World \<Rightarrow> (exn + unit) \<times> (ValidationResult \<times> World)" where
  "validateBody net v st =
     (case st of (result0, w) \<Rightarrow>
      let result = result0\<lparr>checks := (checks result0)\<lparr>format := validateEmailFormat v\<rparr>\<rparr>
      in if \<not> format (checks result) then (Inr (), (result\<lparr>reason := ''Invalid email format''\<rparr>, w))
      else
        (let pieces = (case v of JStr s \<Rightarrow> split s ''@'' | _ \<Rightarrow> []);
             localPart = (case pieces of [] \<Rightarrow> [] | l # _ \<Rightarrow> l)
         in if length localPart > 64
            then (Inr (), (result\<lparr>reason := ''Local part exceeds maximum length''\<rparr>, w))
            else
              (case pieces of
                 l # domain # _ \<Rightarrow>
                   if length domain > 255
                   then (Inr (), (result\<lparr>reason := ''Domain exceeds maximum length''\<rparr>, w))
                   else
                     (let result = result\<lparr>checks := (checks result)\<lparr>dns := checkDNS net domain\<rparr>\<rparr>
                      in if \<not> dns (checks result)
                         then (Inr (), (result\<lparr>reason := ''Domain does not exist''\<rparr>, w))
                         else
                           (case checkMX net domain of
                              None \<Rightarrow>
                                (Inr (), (result\<lparr>reason := ''No mail servers found for domain''\<rparr>, w))
                            | Some records \<Rightarrow>
                                (let spfResult = checkSPF net domain;
                                     result = result
                                       \<lparr>checks := (checks result)\<lparr>mx := True, spf := fst spfResult\<rparr>,
                                        details := (details result)
                                          \<lparr>mxRecords := records, spfRecord := snd spfResult\<rparr>\<rparr>;
                                     providerConfig = getProviderConfig domain
                                 in case mxLoop net providerConfig
                                           (case v of JStr s \<Rightarrow> s | _ \<Rightarrow> []) domain records
                                           (result, False, None) w of
                                      ((result, smtpSuccess, lastError), w') \<Rightarrow>
                                        (Inr (),
                                         (if smtpSuccess
                                          then result\<lparr>valid := True, reason := ''Email is valid''\<rparr>
                                          else if dns (checks result) \<and> mx (checks result)
                                          then result
                                            \<lparr>valid := False,
                                             reason := (case lastError of
                                                          None \<Rightarrow> ''Failed to verify mailbox''
                                                        | Some m \<Rightarrow>
                                                            if m = [] then ''Failed to verify mailbox''
                                                            else m)\<rparr>
                                          else result
                                            \<lparr>valid := False, reason := ''Domain validation failed''\<rparr>,
                                          w')))))
               | _ \<Rightarrow>
                   (Inl (Error ''Cannot read properties of undefined (reading 'length')''),
                    (result, w)))))"

text \<open>
  \<open>validateEmail\<close>: the promise it returns is fulfilled (\<open>Inr\<close>) or rejected (\<open>Inl\<close>).
  The \<open>catch\<close> writes the message into \<open>result.reason\<close>, and \<open>result\<close> is returned.
\<close>

definition validateEmail :: "Net \<Rightarrow> jsval \<Rightarrow> World \<Rightarrow> (exn + ValidationResult) \<times> World" where
  "validateEmail net v w =
     (case validateBody net v (initialResult v, w) of
        (Inr _, (result, w')) \<Rightarrow> (Inr result, w')
      | (Inl e, (result, w')) \<Rightarrow>
          (Inr (result\<lparr>reason := ''Validation error: '' @ message e\<rparr>), w'))"

section \<open>Routes (server/routes/validation.js)\<close>

definition BATCH_SIZE :: nat where "BATCH_SIZE = 5"
definition MAX_RETRIES :: nat where "MAX_RETRIES = 3"
definition RETRY_DELAY :: int where "RETRY_DELAY = 5000"
definition BATCH_DELAY :: int where "BATCH_DELAY = 2000"

function validateEmailWithRetry ::
    "Net \<Rightarrow> jsval \<Rightarrow> nat \<Rightarrow> World \<Rightarrow> (exn + ValidationResult) \<times> World" where
  "validateEmailWithRetry net v retryCount w =
     (case validateEmail net v w of
        (Inr result, w') \<Rightarrow> (Inr result, w')
      | (Inl e, w') \<Rightarrow>
          if retryCount < MAX_RETRIES
          then validateEmailWithRetry net v (retryCount + 1)
                 (sleep (RETRY_DELAY * (int retryCount + 1)) w')
          else (Inl e, w'))"
  by pat_completeness auto
termination
  by (relation "measure (\<lambda>(net, v, retryCount, w). MAX_RETRIES - retryCount)") auto

declare validateEmailWithRetry.simps [simp del]

text \<open>
  An element of a result array: a \<open>ValidationResult\<close>, or the object literal
  \<open>{valid, reason, checks}\<close> the routes put in its place.
\<close>

datatype item =
    Result ValidationResult
  | Stub bool string Checks

definition noChecks :: Checks where
  "noChecks = \<lparr>format = False, dns = False, mx = False, spf = False, smtp = False,
               mailbox = False, catchAll = None\<rparr>"

text \<open>
  The validations of one batch run concurrently; how they interleave on the proxy
  pool is not fixed by the code. The routes are therefore modelled over the settled
  outcomes of the promises: \<open>settle k v\<close> is what \<open>validateEmailWithRetry(v)\<close> settles
  to for the \<open>k\<close>-th email validated by the request. The pauses between batches do
  not enter the results and are left out.
\<close>

definition settled :: "exn + ValidationResult \<Rightarrow> item" where
  "settled outcome =
     (case outcome of
        Inr r \<Rightarrow> Result r
      | Inl e \<Rightarrow> Stub False (if message e = [] then ''Validation failed'' else message e) noChecks)"

text \<open>
  \<open>POST /validate/batch\<close>: the \<open>for (let i = 0; i < emails.length; i += batchSize)\<close>
  loop. \<open>Promise.allSettled\<close> never rejects, so the inner \<open>catch\<close> has nothing to catch.
\<close>

function batchLoop ::
    "(nat \<Rightarrow> jsval \<Rightarrow> exn + ValidationResult) \<Rightarrow> jsval list \<Rightarrow> nat \<Rightarrow> item list \<Rightarrow> item list" where
  "batchLoop settle emails i results =
     (if i < length emails then
        (let batch = take BATCH_SIZE (drop i emails);
             batchResults = map (\<lambda>(k, v). settle k v) (zip [i ..< i + length batch] batch)
         in batchLoop settle emails (i + BATCH_SIZE) (results @ map settled batchResults))
      else results)"
  by pat_completeness auto
termination
  by (relation "measure (\<lambda>(settle, emails, i, results). length emails - i)")
     (auto simp: BATCH_SIZE_def)

declare batchLoop.simps [simp del]

datatype 'a response = Status400 | Json 'a

text \<open>The body member \<open>emails\<close>: \<open>None\<close> when it is missing or not an array.\<close>

definition validateBatch ::
    "(nat \<Rightarrow> jsval \<Rightarrow> exn + ValidationResult) \<Rightarrow> jsval list option \<Rightarrow> item list response" where
  "validateBatch settle body =
     (case body of
        None \<Rightarrow> Status400
      | Some emails \<Rightarrow> Json (batchLoop settle emails 0 []))"




datatype chunk =
    Progress nat nat "item list"
  | Complete "item list"

record Bulk =
  batch :: "string list"
  processed :: nat
  results :: "item list"
  validated :: "string list"
  sent :: "chunk list"





subsection \<open>Notions and inputs for the statements about the routes\<close>

text \<open>A batch of seven values whose second validation rejects.\<close>

definition emailsW :: "jsval list" where
  "emailsW = [JStr ''a@example.com'', JNull, JStr ''b@example.com'', JStr ''not-an-email'',
              JNum 7, JStr ''c@example.com'', JStr ''d@example.com'']"

definition settleW :: "nat \<Rightarrow> jsval \<Rightarrow> exn + ValidationResult" where
  "settleW k v = (if k = 1 then Inl (Error ''boom'') else Inr (initialResult v))"





section \<open>Concrete scenarios\<close>

text \<open>
  A mail server that greets with 220 and accepts every command, in particular every
  recipient; one that greets with 554; and one that refuses the recipient with 550 on the
  first connection and accepts on later ones.
\<close>

definition accepting :: "nat \<Rightarrow> string list \<Rightarrow> string list" where
  "accepting n cmds =
     (if cmds = [] then [''220 mx.example.com ESMTP'' @ CRLF]
      else if startsWith (last cmds) ''EHLO''
        then [''250-mx.example.com'' @ CRLF @ ''250-SIZE 35882577'' @ CRLF, ''250 END'' @ CRLF]
      else if startsWith (last cmds) ''QUIT'' then [''221 2.0.0 Bye'' @ CRLF]
      else [''250 2.1.5 OK'' @ CRLF])"

definition refusingGreeting :: "nat \<Rightarrow> string list \<Rightarrow> string list" where
  "refusingGreeting n cmds =
     (if cmds = [] then [''554 5.7.1 No service'' @ CRLF] else [''221 2.0.0 Bye'' @ CRLF])"

definition rejectingFirst :: "nat \<Rightarrow> string list \<Rightarrow> string list" where
  "rejectingFirst n cmds =
     (if n = 0 \<and> cmds \<noteq> [] \<and> startsWith (last cmds) ''RCPT''
      then [''550 5.1.1 User unknown'' @ CRLF]
      else accepting n cmds)"

text \<open>
  The rest of the world around such a server: the clock advances by 100 seconds per
  reading, every connection is established, the domain has an A record, two mail
  exchangers and an SPF record.
\<close>

definition scripted :: "(nat \<Rightarrow> string list \<Rightarrow> string list) \<Rightarrow> Net" where
  "scripted server =
     \<lparr>dateNow = (\<lambda>k. 100000 * (int k + 1)),
      connectError = (\<lambda>n proxy target. None),
      incoming = server,
      fromAddress = (\<lambda>n. ''verify.k3j9x2@sendgrid.net''),
      resolve = (\<lambda>domain rrtype. if rrtype = ''A'' then Inr [''93.184.216.34'']
                                   else Inl (Error ''queryA ENODATA'')),
      resolveMx = (\<lambda>domain. Inr [\<lparr>exchange = ''mx2.example.com'', priority = 20\<rparr>,
                                  \<lparr>exchange = ''mx1.example.com'', priority = 10\<rparr>]),
      resolveTxt = (\<lambda>domain. Inr [[''v=spf1 -all'']])\<rparr>"

definition freshProxy :: Proxy where
  "freshProxy = \<lparr>host = ''10.0.0.1'', port = 1080, username = None, password = None,
                 failures = 0, lastUsed = 0, connections = 0\<rparr>"

definition emptyWorld :: World where
  "emptyWorld = \<lparr>pool = \<lparr>proxies = [], currentIndex = 0\<rparr>, tick = 0, opened = 0, trace = []\<rparr>"

definition oneProxyWorld :: World where
  "oneProxyWorld = \<lparr>pool = \<lparr>proxies = [freshProxy], currentIndex = 0\<rparr>,
                    tick = 0, opened = 0, trace = []\<rparr>"

text \<open>The same pool while one earlier dialog through the proxy is still open.\<close>

definition busyWorld :: World where
  "busyWorld = \<lparr>pool = \<lparr>proxies = [freshProxy\<lparr>connections := 1\<rparr>], currentIndex = 0\<rparr>,
                tick = 0, opened = 0, trace = []\<rparr>"

text \<open>
  A verify result that is the outcome of the reply some dialog for this address got to
  its \<open>RCPT\<close> command.
\<close>

definition repliedBy :: "Net \<Rightarrow> string \<Rightarrow> string \<Rightarrow> VerifyResult \<Rightarrow> bool" where
  "repliedBy net em domain v \<longleftrightarrow>
     (\<exists>reply s w2 st3. dialog net em domain (s, w2) = (Inr reply, st3) \<and> v = rcptOutcome reply)"


text \<open>
  The two mail exchangers of the scenarios, the first socket opened through the proxy,
  and the outcome of validating \<open>a@example.com\<close> against the accepting server.
\<close>

definition mx1 :: MXRecord where
  "mx1 = \<lparr>exchange = ''mx1.example.com'', priority = 10\<rparr>"

definition mx2 :: MXRecord where
  "mx2 = \<lparr>exchange = ''mx2.example.com'', priority = 20\<rparr>"



definition socket0 :: Socket where
  "socket0 = \<lparr>sid = 0, via = Some 0, written = [], destroyed = False\<rparr>"

text \<open>
  The same servers with a clock that starts at a present-day reading and advances by
  3 seconds per reading, and a pool of two fresh proxies.
\<close>

definition paced :: "(nat \<Rightarrow> string list \<Rightarrow> string list) \<Rightarrow> Net" where
  "paced server = (scripted server)\<lparr>dateNow := (\<lambda>k. 1700000000000 + 3000 * int k)\<rparr>"

definition twoProxyWorld :: World where
  "twoProxyWorld =
     \<lparr>pool = \<lparr>proxies = [freshProxy, freshProxy\<lparr>host := ''10.0.0.2''\<rparr>], currentIndex = 0\<rparr>,
      tick = 0, opened = 0, trace = []\<rparr>"

section \<open>Properties of the patterns and of the response reader\<close>

lemma consumed_refl: "consumed A (Some 0) s s"
  by (simp add: consumed_def)

lemma consumed_weaken:
  assumes "consumed A b s t" "\<And>c. A c \<Longrightarrow> A' c"
    "\<And>n'. b' = Some n' \<Longrightarrow> \<exists>n. b = Some n \<and> n \<le> n'"
  shows "consumed A' b' s t"
proof -
  from assms(1) obtain p where p: "s = p @ t" "\<forall>c \<in> set p. A c"
    "\<forall>n. b = Some n \<longrightarrow> length p \<le> n" by (auto simp: consumed_def)
  have "\<forall>n'. b' = Some n' \<longrightarrow> length p \<le> n'"
  proof (intro allI impI)
    fix n' assume "b' = Some n'"
    from assms(3) [OF this] obtain n where "b = Some n" "n \<le> n'" by blast
    with p(3) show "length p \<le> n'" by auto
  qed
  with p(1,2) assms(2) show ?thesis unfolding consumed_def by blast
qed

lemma consumed_trans:
  assumes "consumed A a s u" "consumed A b u t"
  shows "consumed A (plusBound a b) s t"
proof -
  from assms(1) obtain p where p: "s = p @ u" "\<forall>c \<in> set p. A c"
    "\<forall>n. a = Some n \<longrightarrow> length p \<le> n" by (auto simp: consumed_def)
  from assms(2) obtain q where q: "u = q @ t" "\<forall>c \<in> set q. A c"
    "\<forall>n. b = Some n \<longrightarrow> length q \<le> n" by (auto simp: consumed_def)
  have "s = (p @ q) @ t" using p(1) q(1) by simp
  moreover have "\<forall>c \<in> set (p @ q). A c" using p(2) q(2) by auto
  moreover have "\<forall>n. plusBound a b = Some n \<longrightarrow> length (p @ q) \<le> n"
    using p(3) q(3) by (auto simp: plusBound_def split: option.splits)
  ultimately show ?thesis unfolding consumed_def by blast
qed

lemma exactly_consumed:
  assumes step: "\<And>s t. t \<in> set (f s) \<Longrightarrow> consumed A b s t"
  shows "t \<in> set (exactly f m s) \<Longrightarrow> consumed A (timesBound m b) s t"
proof (induction m arbitrary: s)
  case 0
  then show ?case by (cases b) (simp_all add: consumed_def timesBound_def)
next
  case (Suc m)
  then obtain u where u: "u \<in> set (f s)" "t \<in> set (exactly f m u)" by auto
  from consumed_trans [OF step [OF u(1)] Suc.IH [OF u(2)]]
  show ?case by (rule consumed_weaken) (auto simp: plusBound_def timesBound_def split: option.splits)
qed

lemma upto_consumed:
  assumes step: "\<And>s t. t \<in> set (f s) \<Longrightarrow> consumed A b s t"
  shows "t \<in> set (upto f m s) \<Longrightarrow> consumed A (timesBound m b) s t"
proof (induction m arbitrary: s)
  case 0
  then show ?case by (cases b) (simp_all add: consumed_def timesBound_def)
next
  case (Suc m)
  then consider "t = s" | u where "u \<in> set (f s)" "t \<in> set (upto f m u)" by auto
  then show ?case
  proof cases
    case 1
    then show ?thesis by (cases b) (simp_all add: consumed_def timesBound_def)
  next
    case 2
    from consumed_trans [OF step [OF 2(1)] Suc.IH [OF 2(2)]]
    show ?thesis by (rule consumed_weaken) (auto simp: plusBound_def timesBound_def split: option.splits)
  qed
qed

lemma rests_consumed:
  "t \<in> set (rests r s) \<Longrightarrow> consumed (atoms r) (maxLen r) s t"
proof (induction r arbitrary: s t)
  case (Cls ranges)
  then show ?case by (cases s) (auto simp: consumed_def split: if_splits)
next
  case Dot
  then show ?case by (cases s) (auto simp: consumed_def split: if_splits)
next
  case (Seq a b)
  then obtain u where u: "u \<in> set (rests a s)" "t \<in> set (rests b u)" by auto
  have 1: "consumed (atoms (Seq a b)) (maxLen a) s u"
    by (rule consumed_weaken [OF Seq.IH(1) [OF u(1)]]) auto
  have 2: "consumed (atoms (Seq a b)) (maxLen b) u t"
    by (rule consumed_weaken [OF Seq.IH(2) [OF u(2)]]) auto
  from consumed_trans [OF 1 2] show ?case
    by (rule consumed_weaken) (auto simp: plusBound_def split: option.splits)
next
  case (Opt a)
  then consider "t \<in> set (rests a s)" | "t = s" by auto
  then show ?case
  proof cases
    case 1
    from Opt.IH [OF 1] show ?thesis by simp
  next
    case 2
    then show ?thesis by (simp add: consumed_def)
  qed
next
  case (Rep m n a)
  let ?k = "case n of None \<Rightarrow> length s | Some k \<Rightarrow> k - m"
  from Rep.prems obtain u where u: "u \<in> set (exactly (rests a) m s)"
    "t \<in> set (upto (rests a) ?k u)" by auto
  have 1: "consumed (atoms a) (timesBound m (maxLen a)) s u"
    by (rule exactly_consumed [OF Rep.IH u(1)])
  have 2: "consumed (atoms a) (timesBound ?k (maxLen a)) u t"
    by (rule upto_consumed [OF Rep.IH u(2)])
  from consumed_trans [OF 1 2] show ?case
    by (rule consumed_weaken)
       (auto simp: plusBound_def timesBound_def add_mult_distrib split: option.splits)
qed

lemma test_consumed:
  assumes "test r s"
  shows "(\<forall>c \<in> set s. atoms r c) \<and> (\<forall>n. maxLen r = Some n \<longrightarrow> length s \<le> n)"
proof -
  from assms have "[] \<in> set (rests r s)" by (simp add: test_def)
  from rests_consumed [OF this] show ?thesis by (auto simp: consumed_def)
qed

lemma startsWith_includesStr: "startsWith s p \<Longrightarrow> includesStr s p"
  by (cases s) (auto simp: startsWith_def)

lemma includesStr_append: "includesStr (l @ p @ r) p"
proof (induction l)
  case Nil
  show ?case by (rule startsWith_includesStr) (simp add: startsWith_def)
next
  case (Cons c l)
  then show ?case by simp
qed

lemma splitFrom_none:
  "c \<notin> set s \<Longrightarrow> splitFrom [c] piece s = [piece @ s]"
proof (induction s arbitrary: piece)
  case Nil
  show ?case by (simp add: splitFrom.simps)
next
  case (Cons x s)
  then have "splitFrom [c] (piece @ [x]) s = [(piece @ [x]) @ s]" by simp
  moreover have "splitFrom [c] piece (x # s) = splitFrom [c] (piece @ [x]) s"
    using Cons.prems by (auto simp: splitFrom.simps [of "[c]" piece "x # s"] startsWith_def)
  ultimately show ?case by simp
qed

lemma splitFrom_first:
  "c \<notin> set l \<Longrightarrow> splitFrom [c] piece (l @ c # d) = (piece @ l) # splitFrom [c] [] d"
proof (induction l arbitrary: piece)
  case Nil
  show ?case by (simp add: splitFrom.simps [of "[c]" piece "c # d"] startsWith_def)
next
  case (Cons x l)
  then have "splitFrom [c] (piece @ [x]) (l @ c # d) = ((piece @ [x]) @ l) # splitFrom [c] [] d"
    by simp
  moreover have "splitFrom [c] piece ((x # l) @ c # d) = splitFrom [c] (piece @ [x]) (l @ c # d)"
    using Cons.prems by (auto simp: splitFrom.simps [of "[c]" piece "x # l @ c # d"] startsWith_def)
  ultimately show ?case by simp
qed

lemma split_at_sign:
  assumes "CHR ''@'' \<notin> set l" "CHR ''@'' \<notin> set d"
  shows "split (l @ ''@'' @ d) ''@'' = [l, d]"
  using splitFrom_first [OF assms(1), of "[]" d] splitFrom_none [OF assms(2), of "[]"]
  by (simp add: split_def)

lemma splitFrom_CRLF:
  "CHR 0x0A \<notin> set l \<Longrightarrow>
   splitFrom CRLF piece (l @ CRLF @ rest) = (piece @ l) # splitFrom CRLF [] rest"
proof (induction l arbitrary: piece)
  case Nil
  show ?case
    by (simp add: CRLF_def startsWith_def
          splitFrom.simps [of "[CHR 0x0D, CHR 0x0A]" piece "CHR 0x0D # CHR 0x0A # rest"])
next
  case (Cons x l)
  then have ih: "splitFrom CRLF (piece @ [x]) (l @ CRLF @ rest) =
                 ((piece @ [x]) @ l) # splitFrom CRLF [] rest" by simp
  have no: "\<not> startsWith ((x # l) @ CRLF @ rest) CRLF"
    using Cons.prems by (cases l) (auto simp: startsWith_def CRLF_def)
  have "splitFrom CRLF piece ((x # l) @ CRLF @ rest) =
        splitFrom CRLF (piece @ [x]) (l @ CRLF @ rest)"
    using no by (simp add: splitFrom.simps [of CRLF piece "x # l @ CRLF @ rest"])
  with ih show ?case by simp
qed

lemma atoms_response_LF: "\<not> atoms responseRegex (CHR 0x0A)"
  by (simp add: responseRegex_def inCls_def)

lemma response_line_no_LF: "test responseRegex l \<Longrightarrow> CHR 0x0A \<notin> set l"
  using test_consumed [of responseRegex l] atoms_response_LF by blast

lemma readResponse_first_line:
  assumes "test responseRegex l"
  shows "readResponse ((l @ CRLF @ rest) # ds) = Inr l"
proof -
  have sp: "split (l @ CRLF @ rest) CRLF = l # splitFrom CRLF [] rest"
    using splitFrom_CRLF [OF response_line_no_LF [OF assms], of "[]" rest]
    by (simp add: split_def)
  have inc: "includesStr (l @ CRLF @ rest) CRLF" by (rule includesStr_append)
  show ?thesis
    using assms by (simp add: readResponse_def Let_def inc sp)
qed

lemma handleData_matches:
  "handleData buf chunks = Some line \<Longrightarrow> test responseRegex line"
proof (induction chunks arbitrary: buf)
  case Nil
  then show ?case by simp
next
  case (Cons d ds)
  show ?case
  proof (cases "includesStr (buf @ d) CRLF")
    case False
    with Cons.prems have "handleData (buf @ d) ds = Some line" by (simp add: Let_def)
    then show ?thesis by (rule Cons.IH)
  next
    case True
    show ?thesis
    proof (cases "find (test responseRegex) (split (buf @ d) CRLF)")
      case None
      with True Cons.prems have "handleData (buf @ d) ds = Some line" by (simp add: Let_def)
      then show ?thesis by (rule Cons.IH)
    next
      case (Some found)
      with True Cons.prems have "found = line" by (simp add: Let_def)
      with Some show ?thesis by (auto simp: find_Some_iff)
    qed
  qed
qed

lemma maxLen_localRegex: "maxLen localRegex = Some 63"
  by (simp add: localRegex_def)

lemma atoms_local_at: "\<not> atoms localRegex CHR ''@''"
  by (simp add: localRegex_def alnum_def inCls_def)

lemma atoms_domain_at: "\<not> atoms domainRegex CHR ''@''"
  by (simp add: domainRegex_def alnum_def inCls_def lit_def)

lemma rests_lit: "v \<in> set (rests (lit c) u) \<Longrightarrow> u = c # v"
  by (cases u) (auto simp: lit_def inCls_def split: if_splits)

lemma format_shape:
  assumes "test emailRegex s"
  shows "\<exists>p d. s = p @ ''@'' @ d \<and> CHR ''@'' \<notin> set p \<and> CHR ''@'' \<notin> set d \<and> length p \<le> 63"
proof -
  from assms have "[] \<in> set (rests (Seq localRegex (Seq (lit CHR ''@'') domainRegex)) s)"
    by (simp add: test_def emailRegex_def)
  then obtain u v where u: "u \<in> set (rests localRegex s)"
    and v: "v \<in> set (rests (lit CHR ''@'') u)"
    and d: "[] \<in> set (rests domainRegex v)"
    by auto
  from rests_consumed [OF u] obtain p where p: "s = p @ u" "\<forall>c \<in> set p. atoms localRegex c"
    "length p \<le> 63"
    by (auto simp: consumed_def maxLen_localRegex)
  from rests_lit [OF v] have uv: "u = CHR ''@'' # v" .
  from rests_consumed [OF d] have dv: "\<forall>c \<in> set v. atoms domainRegex c"
    by (auto simp: consumed_def)
  from p(2) atoms_local_at have "CHR ''@'' \<notin> set p" by blast
  moreover from dv atoms_domain_at have "CHR ''@'' \<notin> set v" by blast
  moreover have "s = p @ ''@'' @ v" using p(1) uv by simp
  ultimately show ?thesis using p(3) by blast
qed

lemma local_part_unique:
  assumes "l @ ''@'' @ d = p @ ''@'' @ d'" "CHR ''@'' \<notin> set p" "CHR ''@'' \<notin> set d'"
  shows "l = p"
proof -
  have "count_list (p @ ''@'' @ d') CHR ''@'' = 1"
    using assms(2,3) by (simp add: count_list_0_iff)
  with assms(1) have "count_list (l @ ''@'' @ d) CHR ''@'' = 1" by simp
  then have "count_list l CHR ''@'' = 0" by simp
  then have nl: "CHR ''@'' \<notin> set l" by (simp add: count_list_0_iff)
  have "takeWhile (\<lambda>c. c \<noteq> CHR ''@'') (l @ ''@'' @ d) = l"
    using nl by (auto simp: takeWhile_tail)
  moreover have "takeWhile (\<lambda>c. c \<noteq> CHR ''@'') (p @ ''@'' @ d') = p"
    using assms(2) by (auto simp: takeWhile_tail)
  ultimately show ?thesis using assms(1) by simp
qed

lemma format_local_bound:
  assumes "validateEmailFormat (JStr (l @ ''@'' @ d))"
  shows "length l \<le> 63"
proof -
  from assms have "test emailRegex (l @ ''@'' @ d)" by simp
  from format_shape [OF this] obtain p d' where
    s: "l @ ''@'' @ d = p @ ''@'' @ d'" and np: "CHR ''@'' \<notin> set p"
    and nd: "CHR ''@'' \<notin> set d'" and len: "length p \<le> 63" by blast
  from local_part_unique [OF s np nd] len show ?thesis by simp
qed

lemma validateEmail_bad_format:
  assumes "\<not> validateEmailFormat v"
  shows "validateEmail net v w = (Inr ((initialResult v)\<lparr>reason := ''Invalid email format''\<rparr>), w)"
  using assms by (simp add: validateEmail_def validateBody_def initialResult_def)

section \<open>Properties of the proxy pool\<close>

lemma scan_done: "length (proxies pm) \<le> a \<Longrightarrow> scan now pm a = (Inr None, pm)"
  by (simp add: scan.simps)

lemma scan_found:
  assumes "a < length (proxies pm)" "currentIndex pm < length (proxies pm)"
    "\<not> skipped now (proxies pm ! currentIndex pm)"
  shows "scan now pm a =
     (Inr (Some (currentIndex pm)),
      pm\<lparr>currentIndex := (currentIndex pm + 1) mod length (proxies pm),
         proxies := (proxies pm)[currentIndex pm :=
            (proxies pm ! currentIndex pm)\<lparr>lastUsed := now,
               connections := connections (proxies pm ! currentIndex pm) + 1\<rparr>]\<rparr>)"
  using assms by (simp add: scan.simps Let_def)

lemma scan_step:
  assumes "a < length (proxies pm)" "currentIndex pm < length (proxies pm)"
    "skipped now (proxies pm ! currentIndex pm)"
  shows "scan now pm a =
     scan now (pm\<lparr>currentIndex := (currentIndex pm + 1) mod length (proxies pm)\<rparr>) (a + 1)"
  using assms by (simp add: scan.simps [of now pm] Let_def)

lemma scan_skip:
  assumes "currentIndex pm < length (proxies pm)" "a + k \<le> length (proxies pm)"
    "\<forall>j<k. skipped now (proxies pm ! ((currentIndex pm + j) mod length (proxies pm)))"
  shows "scan now pm a =
     scan now (pm\<lparr>currentIndex := (currentIndex pm + k) mod length (proxies pm)\<rparr>) (a + k)"
  using assms
proof (induction k arbitrary: pm a)
  case 0
  then show ?case by simp
next
  case (Suc k)
  let ?n = "length (proxies pm)"
  let ?pm1 = "pm\<lparr>currentIndex := (currentIndex pm + 1) mod ?n\<rparr>"
  from Suc.prems(3) have "skipped now (proxies pm ! ((currentIndex pm + 0) mod ?n))"
    by blast
  with Suc.prems(1) have sk: "skipped now (proxies pm ! currentIndex pm)" by simp
  from Suc.prems(2) have a: "a < ?n" by simp
  have step: "scan now pm a = scan now ?pm1 (a + 1)"
    by (rule scan_step [OF a Suc.prems(1) sk])
  have c1: "currentIndex ?pm1 < length (proxies ?pm1)"
    using a by (simp add: mod_less_divisor [OF le_less_trans [OF le0 a]])
  have b1: "(a + 1) + k \<le> length (proxies ?pm1)" using Suc.prems(2) by simp
  have s1: "\<forall>j<k. skipped now (proxies ?pm1 ! ((currentIndex ?pm1 + j) mod length (proxies ?pm1)))"
  proof (intro allI impI)
    fix j assume "j < k"
    then have "Suc j < Suc k" by simp
    with Suc.prems(3) have "skipped now (proxies pm ! ((currentIndex pm + Suc j) mod ?n))"
      by blast
    moreover have "((currentIndex pm + 1) mod ?n + j) mod ?n = (currentIndex pm + Suc j) mod ?n"
      by (simp add: mod_add_left_eq)
    ultimately show "skipped now (proxies ?pm1 ! ((currentIndex ?pm1 + j) mod length (proxies ?pm1)))"
      by simp
  qed
  have "scan now ?pm1 (a + 1) =
        scan now (?pm1\<lparr>currentIndex := (currentIndex ?pm1 + k) mod length (proxies ?pm1)\<rparr>) (a + 1 + k)"
    by (rule Suc.IH [OF c1 b1 s1])
  moreover have "(currentIndex ?pm1 + k) mod length (proxies ?pm1) = (currentIndex pm + Suc k) mod ?n"
    by (simp add: mod_add_left_eq)
  ultimately show ?case using step by simp
qed

lemma scan_exhaust:
  assumes c: "currentIndex pm < length (proxies pm)"
    and sk: "\<forall>j<length (proxies pm).
            skipped now (proxies pm ! ((currentIndex pm + j) mod length (proxies pm)))"
  shows "scan now pm 0 = (Inr None, pm)"
proof -
  let ?n = "length (proxies pm)"
  have "scan now pm 0 = scan now (pm\<lparr>currentIndex := (currentIndex pm + ?n) mod ?n\<rparr>) (0 + ?n)"
    by (rule scan_skip [OF c _ sk]) simp
  also have "(currentIndex pm + ?n) mod ?n = currentIndex pm" using c by simp
  finally show ?thesis by (simp add: scan_done)
qed

lemma scan_first:
  assumes c: "currentIndex pm < length (proxies pm)" and k: "k < length (proxies pm)"
    and sk: "\<forall>j<k. skipped now (proxies pm ! ((currentIndex pm + j) mod length (proxies pm)))"
    and el: "\<not> skipped now (proxies pm ! ((currentIndex pm + k) mod length (proxies pm)))"
  shows "scan now pm 0 =
     (Inr (Some ((currentIndex pm + k) mod length (proxies pm))),
      pm\<lparr>currentIndex := ((currentIndex pm + k) mod length (proxies pm) + 1) mod length (proxies pm),
         proxies := (proxies pm)[(currentIndex pm + k) mod length (proxies pm) :=
            (proxies pm ! ((currentIndex pm + k) mod length (proxies pm)))\<lparr>lastUsed := now,
               connections :=
                 connections (proxies pm ! ((currentIndex pm + k) mod length (proxies pm))) + 1\<rparr>]\<rparr>)"
proof -
  let ?n = "length (proxies pm)"
  let ?i = "(currentIndex pm + k) mod ?n"
  let ?pm = "pm\<lparr>currentIndex := ?i\<rparr>"
  have "scan now pm 0 = scan now ?pm (0 + k)"
    by (rule scan_skip [OF c _ sk]) (use k in simp)
  also have "\<dots> = (Inr (Some (currentIndex ?pm)),
      ?pm\<lparr>currentIndex := (currentIndex ?pm + 1) mod length (proxies ?pm),
         proxies := (proxies ?pm)[currentIndex ?pm :=
            (proxies ?pm ! currentIndex ?pm)\<lparr>lastUsed := now,
               connections := connections (proxies ?pm ! currentIndex ?pm) + 1\<rparr>]\<rparr>)"
    unfolding add_0
    by (rule scan_found) (use k el in \<open>simp_all add: mod_less_divisor [OF le_less_trans [OF le0 k]]\<close>)
  finally show ?thesis by simp
qed

lemma getNextProxy_empty:
  "proxies (pool w) = [] \<Longrightarrow> getNextProxy clock w = (Inr None, w)"
  by (simp add: getNextProxy.simps)

lemma getNextProxy_found:
  assumes c: "currentIndex (pool w) < length (proxies (pool w))"
    and k: "k < length (proxies (pool w))"
    and sk: "\<forall>j<k. skipped (clock (tick w)) (proxies (pool w) ! cyc (pool w) j)"
    and el: "\<not> skipped (clock (tick w)) (proxies (pool w) ! cyc (pool w) k)"
  shows "getNextProxy clock w =
     (Inr (Some (cyc (pool w) k)), acquired (clock (tick w)) (cyc (pool w) k) w)"
proof -
  from k have ne: "proxies (pool w) \<noteq> []" by auto
  show ?thesis
    unfolding acquired_def
    by (simp add: getNextProxy.simps [of clock w] ne Let_def
          scan_first [OF c k sk [unfolded cyc_def] el [unfolded cyc_def]] cyc_def)
qed

lemma getNextProxy_none:
  assumes c: "currentIndex (pool w) < length (proxies (pool w))"
    and sk: "\<forall>j<length (proxies (pool w)). skipped (clock (tick w)) (proxies (pool w) ! cyc (pool w) j)"
    and nall: "\<not> list_all (\<lambda>p. failures p \<ge> MAX_FAILURES) (proxies (pool w))"
  shows "getNextProxy clock w = (Inr None, w\<lparr>tick := tick w + 1\<rparr>)"
proof -
  from c have ne: "proxies (pool w) \<noteq> []" by auto
  show ?thesis
    by (simp add: getNextProxy.simps [of clock w] ne Let_def
          scan_exhaust [OF c sk [unfolded cyc_def]] nall)
qed

lemma getNextProxy_reset:
  assumes c: "currentIndex (pool w) < length (proxies (pool w))"
    and sk: "\<forall>j<length (proxies (pool w)). skipped (clock (tick w)) (proxies (pool w) ! cyc (pool w) j)"
    and all: "list_all (\<lambda>p. failures p \<ge> MAX_FAILURES) (proxies (pool w))"
  shows "getNextProxy clock w = getNextProxy clock (resetAll w)"
proof -
  from c have ne: "proxies (pool w) \<noteq> []" by auto
  show ?thesis
    unfolding resetAll_def
    by (simp add: getNextProxy.simps [of clock w] ne Let_def
          scan_exhaust [OF c sk [unfolded cyc_def]] all)
qed

lemma cyc_less: "currentIndex pm < length (proxies pm) \<Longrightarrow> cyc pm k < length (proxies pm)"
  unfolding cyc_def by (intro mod_less_divisor) auto

lemma cyc_0: "currentIndex pm < length (proxies pm) \<Longrightarrow> cyc pm 0 = currentIndex pm"
  by (simp add: cyc_def)

lemma getNextProxy_fresh:
  assumes c: "currentIndex (pool w) < length (proxies (pool w))"
    and fresh: "\<forall>p \<in> set (proxies (pool w)). failures p = 0 \<and> connections p = 0 \<and> lastUsed p = 0"
  shows "getNextProxy clock w =
     (if clock (tick w) < COOLDOWN_PERIOD then (Inr None, w\<lparr>tick := tick w + 1\<rparr>)
      else (Inr (Some (currentIndex (pool w))),
            acquired (clock (tick w)) (currentIndex (pool w)) w))"
proof (cases "clock (tick w) < COOLDOWN_PERIOD")
  case True
  have sk: "\<forall>j<length (proxies (pool w)). skipped (clock (tick w)) (proxies (pool w) ! cyc (pool w) j)"
  proof (intro allI impI)
    fix j assume "j < length (proxies (pool w))"
    have "proxies (pool w) ! cyc (pool w) j \<in> set (proxies (pool w))"
      by (rule nth_mem [OF cyc_less [OF c]])
    with fresh True show "skipped (clock (tick w)) (proxies (pool w) ! cyc (pool w) j)"
      by (simp add: skipped_def)
  qed
  from c have "proxies (pool w) ! currentIndex (pool w) \<in> set (proxies (pool w))" by simp
  with fresh have "failures (proxies (pool w) ! currentIndex (pool w)) = 0" by blast
  with c have nall: "\<not> list_all (\<lambda>p. failures p \<ge> MAX_FAILURES) (proxies (pool w))"
    by (auto simp: list_all_length MAX_FAILURES_def)
  show ?thesis using True getNextProxy_none [where w=w and clock=clock, OF c sk nall] by simp
next
  case False
  from c have mem: "proxies (pool w) ! currentIndex (pool w) \<in> set (proxies (pool w))" by simp
  with fresh have z: "failures (proxies (pool w) ! currentIndex (pool w)) = 0"
    "connections (proxies (pool w) ! currentIndex (pool w)) = 0"
    "lastUsed (proxies (pool w) ! currentIndex (pool w)) = 0" by blast+
  with False have el: "\<not> skipped (clock (tick w)) (proxies (pool w) ! cyc (pool w) 0)"
    by (simp add: skipped_def MAX_FAILURES_def MAX_CONNECTIONS_def cyc_0 [OF c])
  have pos: "0 < length (proxies (pool w))" using c by auto
  have "getNextProxy clock w =
     (Inr (Some (cyc (pool w) 0)), acquired (clock (tick w)) (cyc (pool w) 0) w)"
    by (rule getNextProxy_found [where w=w and clock=clock and k=0, OF c pos _ el]) simp
  with False show ?thesis by (simp add: cyc_0 [OF c])
qed

lemma not_skipped_iff:
  "\<not> skipped now p \<longleftrightarrow>
     failures p < MAX_FAILURES \<and> connections p < MAX_CONNECTIONS \<and>
     COOLDOWN_PERIOD \<le> now - lastUsed p"
  by (auto simp: skipped_def)

lemma first_eligible:
  fixes P :: "nat \<Rightarrow> bool"
  assumes "\<exists>k<n. P k"
  obtains k where "k < n" "P k" "\<forall>j<k. \<not> P j"
proof -
  from assms have "\<exists>k. k < n \<and> P k" by blast
  then have "\<exists>k. (k < n \<and> P k) \<and> (\<forall>j<k. \<not> (j < n \<and> P j))"
    by (subst (asm) exists_least_iff)
  then obtain k where k: "k < n" "P k" and least: "\<forall>j<k. \<not> (j < n \<and> P j)" by blast
  have "\<forall>j<k. \<not> P j"
  proof (intro allI impI)
    fix j assume "j < k"
    with least k(1) show "\<not> P j" by auto
  qed
  with k that show thesis by blast
qed

lemma acquired_budget:
  assumes i: "i < length (proxies (pool w))"
    and el: "\<not> skipped now (proxies (pool w) ! i)"
  shows "length (proxies (pool (acquired now i w))) = length (proxies (pool w)) \<and>
         failures (proxies (pool (acquired now i w)) ! i) < MAX_FAILURES \<and>
         connections (proxies (pool (acquired now i w)) ! i) - 1 < MAX_CONNECTIONS \<and>
         connections (proxies (pool (acquired now i w)) ! i) =
           connections (proxies (pool w) ! i) + 1 \<and>
         lastUsed (proxies (pool (acquired now i w)) ! i) = now"
  using i el by (simp add: acquired_def not_skipped_iff)

lemma resetAll_fresh:
  "\<forall>p \<in> set (proxies (pool (resetAll w))).
      failures p = 0 \<and> connections p = 0 \<and> lastUsed p = 0"
  by (auto simp: resetAll_def resetProxy_def)

lemma resetAll_index:
  "currentIndex (pool (resetAll w)) = currentIndex (pool w)"
  "length (proxies (pool (resetAll w))) = length (proxies (pool w))"
  "tick (resetAll w) = tick w + 1"
  by (simp_all add: resetAll_def)

lemma fresh_not_skipped:
  assumes "failures p = 0" "connections p = 0" "lastUsed p = 0" "\<not> now < COOLDOWN_PERIOD"
  shows "\<not> skipped now p"
  using assms by (simp add: skipped_def MAX_FAILURES_def MAX_CONNECTIONS_def)

lemma getNextProxy_within_budget:
  assumes c: "currentIndex (pool w) < length (proxies (pool w))"
    and res: "getNextProxy clock w = (Inr (Some i), w')"
  shows "i < length (proxies (pool w)) \<and>
         length (proxies (pool w')) = length (proxies (pool w)) \<and>
         failures (proxies (pool w') ! i) < MAX_FAILURES \<and>
         connections (proxies (pool w') ! i) - 1 < MAX_CONNECTIONS"
proof (cases "\<exists>k<length (proxies (pool w)).
                \<not> skipped (clock (tick w)) (proxies (pool w) ! cyc (pool w) k)")
  case True
  then obtain k where k: "k < length (proxies (pool w))"
    and el: "\<not> skipped (clock (tick w)) (proxies (pool w) ! cyc (pool w) k)"
    and sk: "\<forall>j<k. \<not> \<not> skipped (clock (tick w)) (proxies (pool w) ! cyc (pool w) j)"
    by (rule first_eligible)
  from sk have sk': "\<forall>j<k. skipped (clock (tick w)) (proxies (pool w) ! cyc (pool w) j)"
    by blast
  have "getNextProxy clock w =
     (Inr (Some (cyc (pool w) k)), acquired (clock (tick w)) (cyc (pool w) k) w)"
    by (rule getNextProxy_found [where w=w and clock=clock and k=k, OF c k sk' el])
  with res have "i = cyc (pool w) k \<and> w' = acquired (clock (tick w)) (cyc (pool w) k) w"
    by auto
  then have i: "i = cyc (pool w) k" and w': "w' = acquired (clock (tick w)) i w"
    by simp_all
  have lt: "i < length (proxies (pool w))" unfolding i by (rule cyc_less [OF c])
  from el have el': "\<not> skipped (clock (tick w)) (proxies (pool w) ! i)" unfolding i .
  from acquired_budget [OF lt el'] lt show ?thesis unfolding w' by blast
next
  case False
  then have sk: "\<forall>j<length (proxies (pool w)).
       skipped (clock (tick w)) (proxies (pool w) ! cyc (pool w) j)" by blast
  show ?thesis
  proof (cases "list_all (\<lambda>p. failures p \<ge> MAX_FAILURES) (proxies (pool w))")
    case False
    from getNextProxy_none [where w=w and clock=clock, OF c sk False] res
    show ?thesis by simp
  next
    case True
    have c1: "currentIndex (pool (resetAll w)) < length (proxies (pool (resetAll w)))"
      using c by (simp add: resetAll_index)
    from getNextProxy_reset [where w=w and clock=clock, OF c sk True] res
    have r1: "getNextProxy clock (resetAll w) = (Inr (Some i), w')" by simp
    note fr = getNextProxy_fresh [where w="resetAll w" and clock=clock, OF c1 resetAll_fresh]
    show ?thesis
    proof (cases "clock (tick (resetAll w)) < COOLDOWN_PERIOD")
      case True
      with fr r1 show ?thesis by simp
    next
      case False
      with fr r1 have "i = currentIndex (pool (resetAll w)) \<and>
          w' = acquired (clock (tick (resetAll w))) (currentIndex (pool (resetAll w))) (resetAll w)"
        by auto
      then have i: "i = currentIndex (pool (resetAll w))"
        and w': "w' = acquired (clock (tick (resetAll w))) i (resetAll w)"
        by simp_all
      have lt: "i < length (proxies (pool (resetAll w)))" unfolding i by (rule c1)
      then have mem: "proxies (pool (resetAll w)) ! i \<in> set (proxies (pool (resetAll w)))"
        by (rule nth_mem)
      with resetAll_fresh [of w] have z: "failures (proxies (pool (resetAll w)) ! i) = 0"
        "connections (proxies (pool (resetAll w)) ! i) = 0"
        "lastUsed (proxies (pool (resetAll w)) ! i) = 0" by blast+
      have el: "\<not> skipped (clock (tick (resetAll w))) (proxies (pool (resetAll w)) ! i)"
        by (rule fresh_not_skipped [OF z False])
      from acquired_budget [OF lt el] lt show ?thesis
        unfolding w' by (simp add: resetAll_index)
    qed
  qed
qed

lemma world1_simps:
  "currentIndex (pool world1) = 0" "proxies (pool world1) = [proxyA, proxyB]" "tick world1 = 0"
  by (simp_all add: world1_def)

lemma world2_simps:
  "currentIndex (pool world2) = 1" "proxies (pool world2) = [proxyA, proxyA]" "tick world2 = 0"
  by (simp_all add: world2_def)

lemma skipped_proxyA: "skipped now proxyA"
  by (simp add: skipped_def proxyA_def MAX_FAILURES_def)

lemma acquired_shape:
  assumes "i < length (proxies (pool w))"
  shows "length (proxies (pool (acquired now i w))) = length (proxies (pool w)) \<and>
         currentIndex (pool (acquired now i w)) < length (proxies (pool (acquired now i w)))"
proof -
  from assms have "0 < length (proxies (pool w))" by auto
  then have "(i + 1) mod length (proxies (pool w)) < length (proxies (pool w))"
    by (rule mod_less_divisor)
  then show ?thesis by (simp add: acquired_def)
qed

lemma getNextProxy_cursor:
  assumes c: "currentIndex (pool w) < length (proxies (pool w))"
    and res: "getNextProxy clock w = (out, w')"
  shows "(\<exists>handle. out = Inr handle) \<and>
         length (proxies (pool w')) = length (proxies (pool w)) \<and>
         currentIndex (pool w') < length (proxies (pool w'))"
proof (cases "\<exists>k<length (proxies (pool w)).
                \<not> skipped (clock (tick w)) (proxies (pool w) ! cyc (pool w) k)")
  case True
  then obtain k where k: "k < length (proxies (pool w))"
    and el: "\<not> skipped (clock (tick w)) (proxies (pool w) ! cyc (pool w) k)"
    and sk: "\<forall>j<k. \<not> \<not> skipped (clock (tick w)) (proxies (pool w) ! cyc (pool w) j)"
    by (rule first_eligible)
  from sk have sk': "\<forall>j<k. skipped (clock (tick w)) (proxies (pool w) ! cyc (pool w) j)"
    by blast
  have "getNextProxy clock w =
     (Inr (Some (cyc (pool w) k)), acquired (clock (tick w)) (cyc (pool w) k) w)"
    by (rule getNextProxy_found [where w=w and clock=clock and k=k, OF c k sk' el])
  with res have o: "out = Inr (Some (cyc (pool w) k))"
    and w': "w' = acquired (clock (tick w)) (cyc (pool w) k) w" by auto
  from acquired_shape [OF cyc_less [OF c]] show ?thesis unfolding o w' by blast
next
  case False
  then have sk: "\<forall>j<length (proxies (pool w)).
       skipped (clock (tick w)) (proxies (pool w) ! cyc (pool w) j)" by blast
  show ?thesis
  proof (cases "list_all (\<lambda>p. failures p \<ge> MAX_FAILURES) (proxies (pool w))")
    case False
    from getNextProxy_none [where w=w and clock=clock, OF c sk False] res c
    show ?thesis by auto
  next
    case True
    have c1: "currentIndex (pool (resetAll w)) < length (proxies (pool (resetAll w)))"
      using c by (simp add: resetAll_index)
    from getNextProxy_reset [where w=w and clock=clock, OF c sk True] res
    have r1: "getNextProxy clock (resetAll w) = (out, w')" by simp
    note fr = getNextProxy_fresh [where w="resetAll w" and clock=clock, OF c1 resetAll_fresh]
    show ?thesis
    proof (cases "clock (tick (resetAll w)) < COOLDOWN_PERIOD")
      case True
      with fr r1 have "out = Inr None" "w' = (resetAll w)\<lparr>tick := tick (resetAll w) + 1\<rparr>"
        by auto
      with c show ?thesis by (simp add: resetAll_index)
    next
      case False
      with fr r1 have o: "out = Inr (Some (currentIndex (pool (resetAll w))))"
        and w': "w' = acquired (clock (tick (resetAll w))) (currentIndex (pool (resetAll w)))
                        (resetAll w)"
        by auto
      from acquired_shape [OF c1, of "clock (tick (resetAll w))"] show ?thesis
        unfolding o w' by (simp add: resetAll_index)
    qed
  qed
qed

section \<open>Properties of the pipeline and the routes\<close>

lemma validateEmail_fulfils:
  "\<exists>r w'. validateEmail net v w = (Inr r, w')"
proof (cases "validateBody net v (initialResult v, w)")
  case (fields outcome result w')
  then show ?thesis by (cases outcome) (simp_all add: validateEmail_def)
qed

lemma batch_settled:
  assumes "i < length emails"
  shows "map (\<lambda>(k, v). f k v)
           (zip [i ..< i + length (take BATCH_SIZE (drop i emails))] (take BATCH_SIZE (drop i emails)))
         = map (\<lambda>k. f k (emails ! k)) [i ..< min (i + BATCH_SIZE) (length emails)]"
proof (rule nth_equalityI)
  show "length (map (\<lambda>(k, v). f k v)
           (zip [i ..< i + length (take BATCH_SIZE (drop i emails))] (take BATCH_SIZE (drop i emails))))
     = length (map (\<lambda>k. f k (emails ! k)) [i ..< min (i + BATCH_SIZE) (length emails)])"
    using assms by auto
next
  fix j
  assume "j < length (map (\<lambda>(k, v). f k v)
           (zip [i ..< i + length (take BATCH_SIZE (drop i emails))] (take BATCH_SIZE (drop i emails))))"
  then have jb: "j < length (take BATCH_SIZE (drop i emails))" by simp
  then have j: "j < BATCH_SIZE" "i + j < length emails" by auto
  then have jm: "i + j < min (i + BATCH_SIZE) (length emails)" by simp
  have l: "map (\<lambda>(k, v). f k v)
           (zip [i ..< i + length (take BATCH_SIZE (drop i emails))] (take BATCH_SIZE (drop i emails))) ! j
        = f (i + j) (take BATCH_SIZE (drop i emails) ! j)"
    using jb by simp
  have e: "take BATCH_SIZE (drop i emails) ! j = emails ! (i + j)"
    using j by simp
  have r: "map (\<lambda>k. f k (emails ! k)) [i ..< min (i + BATCH_SIZE) (length emails)] ! j
        = f (i + j) (emails ! (i + j))"
    using jm by (simp only: nth_map length_upt nth_upt less_diff_conv add.commute)
  from l e r show "map (\<lambda>(k, v). f k v)
           (zip [i ..< i + length (take BATCH_SIZE (drop i emails))] (take BATCH_SIZE (drop i emails))) ! j
     = map (\<lambda>k. f k (emails ! k)) [i ..< min (i + BATCH_SIZE) (length emails)] ! j"
    by simp
qed

lemma upt_split: "i \<le> j \<Longrightarrow> j \<le> k \<Longrightarrow> [i ..< j] @ [j ..< k] = [i ..< (k::nat)]"
  by (metis le_Suc_ex upt_add_eq_append)

lemma batchLoop_results:
  "batchLoop settle emails i acc =
     acc @ map (\<lambda>k. settled (settle k (emails ! k))) [i ..< length emails]"
proof (induction settle emails i acc rule: batchLoop.induct)
  case (1 settle emails i acc)
  show ?case
  proof (cases "i < length emails")
    case False
    then show ?thesis by (simp add: batchLoop.simps [of settle emails i])
  next
    case True
    let ?b = "take BATCH_SIZE (drop i emails)"
    let ?br = "map (\<lambda>(k, v). settle k v) (zip [i ..< i + length ?b] ?b)"
    let ?j = "min (i + BATCH_SIZE) (length emails)"
    have br: "?br = map (\<lambda>k. settle k (emails ! k)) [i ..< ?j]"
      by (rule batch_settled [OF True])
    have "batchLoop settle emails i acc =
          batchLoop settle emails (i + BATCH_SIZE) (acc @ map settled ?br)"
      using True by (simp add: batchLoop.simps [of settle emails i] Let_def)
    also have "\<dots> = (acc @ map settled ?br) @
          map (\<lambda>k. settled (settle k (emails ! k))) [i + BATCH_SIZE ..< length emails]"
      by (rule "1.IH" [OF True refl refl])
    also have "\<dots> = acc @ map (\<lambda>k. settled (settle k (emails ! k)))
                   ([i ..< ?j] @ [i + BATCH_SIZE ..< length emails])"
      unfolding br by (simp add: comp_def)
    also have "[i ..< ?j] @ [i + BATCH_SIZE ..< length emails] = [i ..< length emails]"
    proof (cases "i + BATCH_SIZE \<le> length emails")
      case True
      then have "?j = i + BATCH_SIZE" by simp
      then show ?thesis using True by (simp add: upt_split)
    next
      case False
      then have "?j = length emails" "[i + BATCH_SIZE ..< length emails] = []" by simp_all
      then show ?thesis by simp
    qed
    finally show ?thesis .
  qed
qed









section \<open>Properties of the mailbox verifier\<close>

lemma pool_emit [simp]: "pool (emit ev w) = pool w"
  by (simp add: emit_def)

lemma pool_sleep: "pool (sleep ms w) = pool w"
  by (simp add: sleep_def)

lemma attempt_empty_pool:
  "proxies (pool w) = [] \<Longrightarrow>
   attempt net mxhost em domain (socket, cur) w =
     (Inl (Error ''No available proxies''), (socket, None), w)"
  by (simp add: attempt_def getNextProxy_empty)

lemma verifyLoop_done:
  "verifyLoop net mxhost em domain vars 3 w =
     (\<lparr>success = False, mailboxExists = False, code = None, rmessage = None,
        error = Some ''Verification failed after 3 attempts''\<rparr>, w)"
  by (simp add: verifyLoop.simps [of net mxhost em domain vars 3 w] SMTP_MAX_RETRIES_def)

lemma verifyLoop_empty_step:
  assumes "proxies (pool w) = []" "rc < 3"
  shows "verifyLoop net mxhost em domain (None, cur) rc w =
         verifyLoop net mxhost em domain (None, None) (rc + 1)
           (if rc + 1 < 3 then sleep (2000 * int (rc + 1)) w else w)"
  using assms
  by (simp add: verifyLoop.simps [of net mxhost em domain "(None, cur)" rc w]
        SMTP_MAX_RETRIES_def SMTP_RETRY_DELAY_def attempt_empty_pool cleanup_def)

lemma verifyMailbox_empty_pool:
  assumes e: "proxies (pool w) = []"
  shows "verifyMailbox net mxhost em domain w =
     (\<lparr>success = False, mailboxExists = False, code = None, rmessage = None,
        error = Some ''Verification failed after 3 attempts''\<rparr>,
      w\<lparr>trace := trace w @ [Sleep 2000, Sleep 4000]\<rparr>)"
proof -
  let ?w1 = "sleep 2000 w"
  let ?w2 = "sleep 4000 ?w1"
  have e1: "proxies (pool ?w1) = []" using e by (simp add: pool_sleep)
  have e2: "proxies (pool ?w2) = []" using e by (simp add: pool_sleep)
  have "verifyMailbox net mxhost em domain w = verifyLoop net mxhost em domain (None, None) 0 w"
    by (simp add: verifyMailbox_def)
  also have "\<dots> = verifyLoop net mxhost em domain (None, None) 1 ?w1"
    using verifyLoop_empty_step [OF e, of 0 net mxhost em domain None] by (simp add: eval_nat_numeral)
  also have "\<dots> = verifyLoop net mxhost em domain (None, None) 2 ?w2"
    using verifyLoop_empty_step [OF e1, of 1 net mxhost em domain None] by (simp add: eval_nat_numeral)
  also have "\<dots> = verifyLoop net mxhost em domain (None, None) 3 ?w2"
    using verifyLoop_empty_step [OF e2, of 2 net mxhost em domain None] by (simp add: eval_nat_numeral)
  also have "\<dots> = (\<lparr>success = False, mailboxExists = False, code = None, rmessage = None,
        error = Some ''Verification failed after 3 attempts''\<rparr>, ?w2)"
    by (rule verifyLoop_done)
  also have "?w2 = w\<lparr>trace := trace w @ [Sleep 2000, Sleep 4000]\<rparr>"
    by (simp add: sleep_def emit_def)
  finally show ?thesis .
qed

lemma rcptOutcome_5xx:
  assumes "startsWith r ''5''"
  shows "success (rcptOutcome r) \<and> \<not> mailboxExists (rcptOutcome r) \<and> error (rcptOutcome r) = None"
proof -
  from assms obtain r' where r: "r = CHR ''5'' # r'"
    by (cases r) (auto simp: startsWith_def)
  show ?thesis unfolding r by (auto simp: rcptOutcome_def Let_def startsWith_def)
qed

lemma mxLoop_skip_rejected:
  assumes "success (fst (verifyFor net cfg em domain m w))"
    and "\<not> mailboxExists (fst (verifyFor net cfg em domain m w))"
  shows "mxLoop net cfg em domain (m # ms) (result, smtpSuccess, lastError) w =
         mxLoop net cfg em domain ms
           (result\<lparr>checks := (checks result)\<lparr>smtp := True, mailbox := False, catchAll := None\<rparr>,
                   details := (details result)
                     \<lparr>smtpResponse := Some (fst (verifyFor net cfg em domain m w))\<rparr>\<rparr>,
            smtpSuccess, error (fst (verifyFor net cfg em domain m w)))
           (snd (verifyFor net cfg em domain m w))"
  using assms
  by (cases "verifyFor net cfg em domain m w") (simp add: Let_def isCatchAll_def)





section \<open>The response reader, chunk by chunk\<close>

lemma buffer_verdict:
  "noMatch response \<or> (\<exists>line. firstMatching response line)"
proof (cases "noMatch response")
  case True
  then show ?thesis by simp
next
  case False
  then have inc: "includesStr response CRLF"
    and ex: "\<exists>l \<in> set (split response CRLF). test responseRegex l"
    by (auto simp: noMatch_def)
  then have "find (test responseRegex) (split response CRLF) \<noteq> None"
    by (auto simp: find_None_iff)
  then obtain line where "find (test responseRegex) (split response CRLF) = Some line" by auto
  with inc have "firstMatching response line"
    by (auto simp: firstMatching_def find_Some_iff)
  then show ?thesis by blast
qed

lemma find_firstMatching:
  "includesStr response CRLF \<and> find (test responseRegex) (split response CRLF) = Some line
     \<longleftrightarrow> firstMatching response line"
  by (auto simp: firstMatching_def find_Some_iff)

lemma find_noMatch:
  "(includesStr response CRLF \<longrightarrow> find (test responseRegex) (split response CRLF) = None)
     \<longleftrightarrow> noMatch response"
  by (auto simp: noMatch_def find_None_iff)

lemma handleData_resolved:
  "firstMatching (response @ d) line \<Longrightarrow> handleData response (d # ds) = Some line"
  using find_firstMatching [of "response @ d" line] by (simp add: Let_def)

lemma handleData_passed:
  "noMatch (response @ d) \<Longrightarrow> handleData response (d # ds) = handleData (response @ d) ds"
  using find_noMatch [of "response @ d"] by (auto simp: Let_def)

lemma handleData_first:
  assumes "k < length chunks"
    and "\<forall>j<k. noMatch (response @ buffered chunks j)"
    and "firstMatching (response @ buffered chunks k) line"
  shows "handleData response chunks = Some line"
  using assms
proof (induction chunks arbitrary: response k)
  case Nil
  then show ?case by simp
next
  case (Cons d ds)
  show ?case
  proof (cases k)
    case 0
    with Cons.prems(3) have "firstMatching (response @ d) line" by (simp add: buffered_def)
    then show ?thesis by (rule handleData_resolved)
  next
    case (Suc k')
    with Cons.prems(2) have "noMatch (response @ buffered (d # ds) 0)" by blast
    then have n0: "noMatch (response @ d)" by (simp add: buffered_def)
    have k': "k' < length ds" using Cons.prems(1) Suc by simp
    have sil: "\<forall>j<k'. noMatch ((response @ d) @ buffered ds j)"
    proof (intro allI impI)
      fix j assume "j < k'"
      then have "Suc j < k" using Suc by simp
      with Cons.prems(2) have "noMatch (response @ buffered (d # ds) (Suc j))" by blast
      then show "noMatch ((response @ d) @ buffered ds j)" by (simp add: buffered_def)
    qed
    have res: "firstMatching ((response @ d) @ buffered ds k') line"
      using Cons.prems(3) Suc by (simp add: buffered_def)
    have "handleData (response @ d) ds = Some line" by (rule Cons.IH [OF k' sil res])
    with handleData_passed [OF n0] show ?thesis by simp
  qed
qed

lemma handleData_timeout:
  assumes "\<forall>k<length chunks. noMatch (response @ buffered chunks k)"
  shows "handleData response chunks = None"
  using assms
proof (induction chunks arbitrary: response)
  case Nil
  then show ?case by simp
next
  case (Cons d ds)
  from Cons.prems have "noMatch (response @ buffered (d # ds) 0)" by auto
  then have n0: "noMatch (response @ d)" by (simp add: buffered_def)
  have "\<forall>k<length ds. noMatch ((response @ d) @ buffered ds k)"
  proof (intro allI impI)
    fix k assume "k < length ds"
    then have "Suc k < length (d # ds)" by simp
    with Cons.prems have "noMatch (response @ buffered (d # ds) (Suc k))" by blast
    then show "noMatch ((response @ d) @ buffered ds k)" by (simp add: buffered_def)
  qed
  from Cons.IH [OF this] handleData_passed [OF n0] show ?case by simp
qed

lemma handleData_origin:
  assumes "handleData response chunks = Some line"
  shows "\<exists>k<length chunks. (\<forall>j<k. noMatch (response @ buffered chunks j)) \<and>
           firstMatching (response @ buffered chunks k) line"
  using assms
proof (induction chunks arbitrary: response)
  case Nil
  then show ?case by simp
next
  case (Cons d ds)
  show ?case
  proof (cases "noMatch (response @ d)")
    case False
    with buffer_verdict [of "response @ d"] obtain l where l: "firstMatching (response @ d) l"
      by blast
    from handleData_resolved [OF l, of ds] Cons.prems have "l = line" by simp
    with l have "firstMatching (response @ buffered (d # ds) 0) line" by (simp add: buffered_def)
    then show ?thesis by auto
  next
    case True
    from handleData_passed [OF True, of ds] Cons.prems
    have "handleData (response @ d) ds = Some line" by simp
    from Cons.IH [OF this] obtain k where k: "k < length ds"
      and sil: "\<forall>j<k. noMatch ((response @ d) @ buffered ds j)"
      and res: "firstMatching ((response @ d) @ buffered ds k) line" by blast
    have "\<forall>j<Suc k. noMatch (response @ buffered (d # ds) j)"
    proof (intro allI impI)
      fix j assume j: "j < Suc k"
      show "noMatch (response @ buffered (d # ds) j)"
      proof (cases j)
        case 0
        with True show ?thesis by (simp add: buffered_def)
      next
        case (Suc j')
        with j sil have "noMatch ((response @ d) @ buffered ds j')" by simp
        with Suc show ?thesis by (simp add: buffered_def)
      qed
    qed
    moreover have "firstMatching (response @ buffered (d # ds) (Suc k)) line"
      using res by (simp add: buffered_def)
    moreover have "Suc k < length (d # ds)" using k by simp
    ultimately show ?thesis by blast
  qed
qed

lemma noMatch_iff: "noMatch response \<longleftrightarrow> \<not> (\<exists>line. firstMatching response line)"
proof
  assume n: "noMatch response"
  show "\<not> (\<exists>line. firstMatching response line)"
  proof
    assume "\<exists>line. firstMatching response line"
    then obtain line i where "includesStr response CRLF" "i < length (split response CRLF)"
      "split response CRLF ! i = line" "test responseRegex line"
      by (auto simp: firstMatching_def)
    then have "includesStr response CRLF" "\<exists>l \<in> set (split response CRLF). test responseRegex l"
      by auto
    with n show False by (auto simp: noMatch_def)
  qed
next
  assume "\<not> (\<exists>line. firstMatching response line)"
  with buffer_verdict [of response] show "noMatch response" by blast
qed

lemma readResponse_timeout_iff:
  "(\<forall>k<length chunks. noMatch (buffered chunks k)) \<longleftrightarrow>
   readResponse chunks = Inl (Error ''Response timeout'')"
proof
  assume "\<forall>k<length chunks. noMatch (buffered chunks k)"
  then have "\<forall>k<length chunks. noMatch ([] @ buffered chunks k)" by simp
  then have "handleData [] chunks = None" by (rule handleData_timeout)
  then show "readResponse chunks = Inl (Error ''Response timeout'')"
    by (simp add: readResponse_def)
next
  assume "readResponse chunks = Inl (Error ''Response timeout'')"
  then have none: "handleData [] chunks = None"
    by (simp add: readResponse_def split: option.splits)
  show "\<forall>k<length chunks. noMatch (buffered chunks k)"
  proof (rule ccontr)
    assume "\<not> (\<forall>k<length chunks. noMatch (buffered chunks k))"
    then have "\<exists>k<length chunks. \<not> noMatch (buffered chunks k)" by blast
    then obtain k where k: "k < length chunks" and nk: "\<not> noMatch (buffered chunks k)"
      and before: "\<forall>j<k. \<not> \<not> noMatch (buffered chunks j)"
      by (rule first_eligible)
    from nk buffer_verdict [of "buffered chunks k"] obtain l
      where l: "firstMatching (buffered chunks k) l" by blast
    have "handleData [] chunks = Some l"
      by (rule handleData_first [OF k]) (use before l in simp_all)
    with none show False by simp
  qed
qed

lemma cutReply_buffers:
  "buffered cutReply 0 = ''hello'' @ CRLF @ ''25''"
  "buffered cutReply 1 = ''hello'' @ CRLF @ ''250-mx.example.com'' @ CRLF @ ''250 E''"
  "length cutReply = 3"
  by (simp_all add: buffered_def cutReply_def)

lemma cutReply_lines:
  "split (''hello'' @ CRLF @ ''25'') CRLF = [''hello'', ''25'']"
  "split (''hello'' @ CRLF @ ''250-mx.example.com'' @ CRLF @ ''250 E'') CRLF =
     [''hello'', ''250-mx.example.com'', ''250 E'']"
  "split (''hello'' @ CRLF) CRLF = [''hello'', []]"
  by code_simp+

lemma cutReply_tests:
  "\<not> test responseRegex ''hello''" "\<not> test responseRegex ''25''" "\<not> test responseRegex []"
  "test responseRegex ''250-mx.example.com''"
  by code_simp+

section \<open>What a completed verification is, and the cases of the loop\<close>

lemma rcptOutcome_fields:
  "success (rcptOutcome reply)"
  "code (rcptOutcome reply) = Some (take 3 reply)"
  "error (rcptOutcome reply) = None"
  "mailboxExists (rcptOutcome reply) \<longleftrightarrow>
     startsWith (take 3 reply) ''2'' \<or> take 3 reply = ''451'' \<or> take 3 reply = ''452''"
  by (simp_all add: rcptOutcome_def Let_def)

lemma attempt_completed:
  assumes "attempt net mxhost em domain vars w = (Inr res, vars', w')"
  shows "repliedBy net em domain res"
proof -
  from assms obtain reply s w2 st3 where
    "dialog net em domain (s, w2) = (Inr reply, st3)" "res = rcptOutcome reply"
    by (auto simp: attempt_def split: prod.splits sum.splits option.splits)
  then show ?thesis unfolding repliedBy_def by blast
qed

lemma verifyLoop_completed:
  "success (fst (verifyLoop net mxhost em domain vars retryCount w)) \<Longrightarrow>
   repliedBy net em domain (fst (verifyLoop net mxhost em domain vars retryCount w))"
proof (induction net mxhost em domain vars retryCount w rule: verifyLoop.induct)
  case (1 net mxhost em domain vars retryCount w)
  show ?case
  proof (cases "retryCount < SMTP_MAX_RETRIES")
    case False
    with "1.prems" show ?thesis
      by (simp add: verifyLoop.simps [of net mxhost em domain vars retryCount w])
  next
    case True
    obtain out vars' w' where a: "attempt net mxhost em domain vars w = (out, vars', w')"
      by (metis surj_pair)
    show ?thesis
    proof (cases out)
      case (Inr res)
      with a True have "fst (verifyLoop net mxhost em domain vars retryCount w) = res"
        by (simp add: verifyLoop.simps [of net mxhost em domain vars retryCount w])
      moreover from attempt_completed a Inr have "repliedBy net em domain res" by blast
      ultimately show ?thesis by simp
    next
      case (Inl e)
      obtain socket currentProxy where v: "vars' = (socket, currentProxy)" by (cases vars')
      obtain socket' w2 where c: "cleanup (socket, markProxyFailure currentProxy w') = (socket', w2)"
        by (metis surj_pair)
      let ?w3 = "if retryCount + 1 < SMTP_MAX_RETRIES
                 then sleep (SMTP_RETRY_DELAY * int (retryCount + 1)) w2 else w2"
      have eq: "verifyLoop net mxhost em domain vars retryCount w =
                verifyLoop net mxhost em domain (socket', currentProxy) (retryCount + 1) ?w3"
        using a Inl v c True
        by (simp add: verifyLoop.simps [of net mxhost em domain vars retryCount w] Let_def)
      have "success (fst (verifyLoop net mxhost em domain (socket', currentProxy)
                (retryCount + 1) ?w3)) \<Longrightarrow>
            repliedBy net em domain (fst (verifyLoop net mxhost em domain (socket', currentProxy)
                (retryCount + 1) ?w3))"
        using "1.IH" [OF True a [symmetric] Inl _ v [symmetric] refl c [symmetric]]
        by (simp add: v)
      with "1.prems" eq show ?thesis by simp
    qed
  qed
qed

lemma verifyMailbox_completed:
  "success (fst (verifyMailbox net mxhost em domain w)) \<Longrightarrow>
   repliedBy net em domain (fst (verifyMailbox net mxhost em domain w))"
  unfolding verifyMailbox_def by (rule verifyLoop_completed)

lemma retryLoop_completed:
  "success (fst (retryLoop net mxhost em domain maxRetries retryCount lastError w)) \<Longrightarrow>
   repliedBy net em domain
     (fst (retryLoop net mxhost em domain maxRetries retryCount lastError w))"
proof (induction net mxhost em domain maxRetries retryCount lastError w rule: retryLoop.induct)
  case (1 net mxhost em domain maxRetries retryCount lastError w)
  show ?case
  proof (cases "retryCount < maxRetries")
    case False
    with "1.prems" show ?thesis
      by (simp add: retryLoop.simps [of net mxhost em domain maxRetries retryCount lastError w])
  next
    case True
    obtain result w1 where v: "verifyMailbox net mxhost em domain w = (result, w1)"
      by (metis surj_pair)
    show ?thesis
    proof (cases "success result")
      case True
      with v \<open>retryCount < maxRetries\<close>
      have eq: "fst (retryLoop net mxhost em domain maxRetries retryCount lastError w) = result"
        by (simp add: retryLoop.simps [of net mxhost em domain maxRetries retryCount lastError w])
      from verifyMailbox_completed [of net mxhost em domain w] v True
      have "repliedBy net em domain result" by simp
      with eq show ?thesis by simp
    next
      case False
      let ?le = "Some (case error result of
                         None \<Rightarrow> ''Verification failed''
                       | Some m \<Rightarrow> if m = [] then ''Verification failed'' else m)"
      let ?w2 = "if retryCount + 1 < maxRetries then sleep (verifyBackoff retryCount) w1 else w1"
      have eq: "retryLoop net mxhost em domain maxRetries retryCount lastError w =
                retryLoop net mxhost em domain maxRetries (retryCount + 1) ?le ?w2"
        using v False \<open>retryCount < maxRetries\<close>
        by (simp add: retryLoop.simps [of net mxhost em domain maxRetries retryCount lastError w])
      from "1.IH" [OF \<open>retryCount < maxRetries\<close> v [symmetric] False] "1.prems" eq
      show ?thesis by simp
    qed
  qed
qed

lemma verifyFor_completed:
  "success (fst (verifyFor net cfg em domain m w)) \<Longrightarrow>
   repliedBy net em domain (fst (verifyFor net cfg em domain m w))"
  by (auto simp: verifyFor_def verifyMailboxWithRetry_def
      dest: retryLoop_completed verifyMailbox_completed)

lemma verifyMailbox_first_round:
  assumes "getNextProxy (dateNow net) w = (Inr (Some i), w1)"
    and "createProxyConnection net (Some i) mxhost w1 = (Inr s, w2)"
    and "dialog net em domain (s, w2) = (Inr reply, st3)"
  shows "fst (verifyMailbox net mxhost em domain w) = rcptOutcome reply"
proof -
  obtain s' w3 where st3: "st3 = (s', w3)" by (cases st3)
  obtain socket' w5 where c: "cleanup (Some s', markProxySuccess (Some i) w3) = (socket', w5)"
    by (metis surj_pair)
  have "attempt net mxhost em domain (None, None) w =
        (Inr (rcptOutcome reply), (socket', Some i), w5)"
    using assms st3 c by (simp add: attempt_def)
  then show ?thesis
    by (simp add: verifyMailbox_def SMTP_MAX_RETRIES_def
          verifyLoop.simps [of net mxhost em domain "(None, None)" 0 w])
qed

lemma retryLoop_first_round:
  assumes "success (fst (verifyMailbox net mxhost em domain w))" "0 < maxRetries"
  shows "retryLoop net mxhost em domain maxRetries 0 lastError w =
         verifyMailbox net mxhost em domain w"
  using assms
  by (cases "verifyMailbox net mxhost em domain w")
     (simp add: retryLoop.simps [of net mxhost em domain maxRetries 0 lastError w])

lemma verifyFor_first_round:
  assumes "getNextProxy (dateNow net) w = (Inr (Some i), w1)"
    and "createProxyConnection net (Some i) (exchange m) w1 = (Inr s, w2)"
    and "dialog net em domain (s, w2) = (Inr reply, st3)"
  shows "fst (verifyFor net cfg em domain m w) = rcptOutcome reply"
proof -
  have v: "fst (verifyMailbox net (exchange m) em domain w) = rcptOutcome reply"
    by (rule verifyMailbox_first_round [OF assms])
  then have s: "success (fst (verifyMailbox net (exchange m) em domain w))"
    by (simp add: rcptOutcome_fields)
  have "verifyMailboxWithRetry net (exchange m) em domain cfg w =
        verifyMailbox net (exchange m) em domain w"
    unfolding verifyMailboxWithRetry_def
    by (rule retryLoop_first_round [OF s]) (simp add: SMTP_MAX_RETRIES_def)
  with v show ?thesis by (simp add: verifyFor_def)
qed

lemma mxLoop_stop:
  assumes "success (fst (verifyFor net cfg em domain m w))"
    and "mailboxExists (fst (verifyFor net cfg em domain m w))"
  shows "mxLoop net cfg em domain (m # ms) (result, smtpSuccess, lastError) w =
         ((result\<lparr>checks := (checks result)\<lparr>smtp := True, mailbox := True, catchAll := None\<rparr>,
                   details := (details result)
                     \<lparr>smtpResponse := Some (fst (verifyFor net cfg em domain m w))\<rparr>\<rparr>,
           True, lastError),
          snd (verifyFor net cfg em domain m w))"
  using assms
  by (cases "verifyFor net cfg em domain m w") (simp add: Let_def isCatchAll_def)

lemma mxLoop_skip_failed:
  assumes "\<not> success (fst (verifyFor net cfg em domain m w))"
  shows "mxLoop net cfg em domain (m # ms) (result, smtpSuccess, lastError) w =
         mxLoop net cfg em domain ms
           (result, smtpSuccess, error (fst (verifyFor net cfg em domain m w)))
           (snd (verifyFor net cfg em domain m w))"
  using assms
  by (cases "verifyFor net cfg em domain m w") (simp add: Let_def)

text \<open>
  Claim C3. On a pool whose cursor is in range (so the pool is not empty), \<open>getNextProxy\<close>
  scans the entries in cyclic order from the cursor, at most once each, and hands out the
  first one that is not skipped, i.e. whose failures are below \<open>MAX_FAILURES\<close>, whose
  connections are below \<open>MAX_CONNECTIONS\<close> and whose last use is at least
  \<open>COOLDOWN_PERIOD\<close> ago; that entry gets \<open>lastUsed = now\<close> and one more connection.
  If every entry is skipped and every entry has reached \<open>MAX_FAILURES\<close>, all entries are
  reset to zero failures, connections and last use, and the one retry on the reset pool
  either hands out the entry at the cursor or returns none (when the fresh clock reading
  is below the cooldown), without a further reset. If every entry is skipped but not all
  have reached \<open>MAX_FAILURES\<close>, the result is none. Whatever is handed out has
  failures below \<open>MAX_FAILURES\<close> and had, before this acquisition was counted,
  connections below \<open>MAX_CONNECTIONS\<close>. The call never throws, and it leaves the
  cursor in range, so the premise holds again for the next call.
\<close>

theorem getNextProxy_acquire:
  assumes c: "currentIndex (pool w) < length (proxies (pool w))"
  shows
    "(\<forall>k < length (proxies (pool w)).
        (\<forall>j<k. skipped (clock (tick w)) (proxies (pool w) ! cyc (pool w) j)) \<and>
        failures (proxies (pool w) ! cyc (pool w) k) < MAX_FAILURES \<and>
        connections (proxies (pool w) ! cyc (pool w) k) < MAX_CONNECTIONS \<and>
        COOLDOWN_PERIOD \<le> clock (tick w) - lastUsed (proxies (pool w) ! cyc (pool w) k)
        \<longrightarrow> getNextProxy clock w =
              (Inr (Some (cyc (pool w) k)), acquired (clock (tick w)) (cyc (pool w) k) w)) \<and>
     ((\<forall>j < length (proxies (pool w)).
          skipped (clock (tick w)) (proxies (pool w) ! cyc (pool w) j)) \<and>
      (\<forall>p \<in> set (proxies (pool w)). failures p \<ge> MAX_FAILURES)
        \<longrightarrow> getNextProxy clock w = getNextProxy clock (resetAll w) \<and>
            getNextProxy clock (resetAll w) =
              (if clock (tick w + 1) < COOLDOWN_PERIOD
               then (Inr None, (resetAll w)\<lparr>tick := tick w + 2\<rparr>)
               else (Inr (Some (currentIndex (pool w))),
                     acquired (clock (tick w + 1)) (currentIndex (pool w)) (resetAll w)))) \<and>
     ((\<forall>j < length (proxies (pool w)).
          skipped (clock (tick w)) (proxies (pool w) ! cyc (pool w) j)) \<and>
      \<not> (\<forall>p \<in> set (proxies (pool w)). failures p \<ge> MAX_FAILURES)
        \<longrightarrow> getNextProxy clock w = (Inr None, w\<lparr>tick := tick w + 1\<rparr>)) \<and>
     (\<forall>i w'. getNextProxy clock w = (Inr (Some i), w')
        \<longrightarrow> i < length (proxies (pool w)) \<and>
            failures (proxies (pool w') ! i) < MAX_FAILURES \<and>
            connections (proxies (pool w') ! i) - 1 < MAX_CONNECTIONS) \<and>
     (\<forall>p \<in> set (proxies (pool (resetAll w))).
        failures p = 0 \<and> connections p = 0 \<and> lastUsed p = 0) \<and>
     (\<forall>out w'. getNextProxy clock w = (out, w')
        \<longrightarrow> (\<exists>handle. out = Inr handle) \<and>
            length (proxies (pool w')) = length (proxies (pool w)) \<and>
            currentIndex (pool w') < length (proxies (pool w')))"
proof (intro conjI allI impI)
  fix k
  assume k: "k < length (proxies (pool w))"
    and h: "(\<forall>j<k. skipped (clock (tick w)) (proxies (pool w) ! cyc (pool w) j)) \<and>
        failures (proxies (pool w) ! cyc (pool w) k) < MAX_FAILURES \<and>
        connections (proxies (pool w) ! cyc (pool w) k) < MAX_CONNECTIONS \<and>
        COOLDOWN_PERIOD \<le> clock (tick w) - lastUsed (proxies (pool w) ! cyc (pool w) k)"
  from h have el: "\<not> skipped (clock (tick w)) (proxies (pool w) ! cyc (pool w) k)"
    by (simp add: not_skipped_iff)
  from h have sk: "\<forall>j<k. skipped (clock (tick w)) (proxies (pool w) ! cyc (pool w) j)"
    by blast
  show "getNextProxy clock w =
      (Inr (Some (cyc (pool w) k)), acquired (clock (tick w)) (cyc (pool w) k) w)"
    by (rule getNextProxy_found [where w=w and clock=clock and k=k, OF c k sk el])
next
  assume h: "(\<forall>j < length (proxies (pool w)).
          skipped (clock (tick w)) (proxies (pool w) ! cyc (pool w) j)) \<and>
      (\<forall>p \<in> set (proxies (pool w)). failures p \<ge> MAX_FAILURES)"
  then have all: "list_all (\<lambda>p. failures p \<ge> MAX_FAILURES) (proxies (pool w))"
    by (simp add: list_all_iff)
  show "getNextProxy clock w = getNextProxy clock (resetAll w)"
    by (rule getNextProxy_reset [where w=w and clock=clock, OF c conjunct1 [OF h] all])
next
  have c1: "currentIndex (pool (resetAll w)) < length (proxies (pool (resetAll w)))"
    using c by (simp add: resetAll_index)
  have "getNextProxy clock (resetAll w) =
     (if clock (tick (resetAll w)) < COOLDOWN_PERIOD
      then (Inr None, (resetAll w)\<lparr>tick := tick (resetAll w) + 1\<rparr>)
      else (Inr (Some (currentIndex (pool (resetAll w)))),
            acquired (clock (tick (resetAll w))) (currentIndex (pool (resetAll w))) (resetAll w)))"
    by (rule getNextProxy_fresh [where w="resetAll w" and clock=clock, OF c1 resetAll_fresh])
  then show "getNextProxy clock (resetAll w) =
              (if clock (tick w + 1) < COOLDOWN_PERIOD
               then (Inr None, (resetAll w)\<lparr>tick := tick w + 2\<rparr>)
               else (Inr (Some (currentIndex (pool w))),
                     acquired (clock (tick w + 1)) (currentIndex (pool w)) (resetAll w)))"
    by (simp add: resetAll_index)
next
  assume h: "(\<forall>j < length (proxies (pool w)).
          skipped (clock (tick w)) (proxies (pool w) ! cyc (pool w) j)) \<and>
      \<not> (\<forall>p \<in> set (proxies (pool w)). failures p \<ge> MAX_FAILURES)"
  then have nall: "\<not> list_all (\<lambda>p. failures p \<ge> MAX_FAILURES) (proxies (pool w))"
    by (simp add: list_all_iff)
  show "getNextProxy clock w = (Inr None, w\<lparr>tick := tick w + 1\<rparr>)"
    by (rule getNextProxy_none [where w=w and clock=clock, OF c conjunct1 [OF h] nall])
next
  fix i w'
  assume res: "getNextProxy clock w = (Inr (Some i), w')"
  note b = getNextProxy_within_budget [OF c res]
  from b show "i < length (proxies (pool w))" by blast
  from b show "failures (proxies (pool w') ! i) < MAX_FAILURES" by blast
  from b show "connections (proxies (pool w') ! i) - 1 < MAX_CONNECTIONS" by blast
next
  show "\<forall>p \<in> set (proxies (pool (resetAll w))).
          failures p = 0 \<and> connections p = 0 \<and> lastUsed p = 0"
    by (rule resetAll_fresh)
next
  fix out w'
  assume res: "getNextProxy clock w = (out, w')"
  note g = getNextProxy_cursor [OF c res]
  from g show "\<exists>handle. out = Inr handle" by blast
  from g show "length (proxies (pool w')) = length (proxies (pool w))" by blast
  from g show "currentIndex (pool w') < length (proxies (pool w'))" by blast
qed

theorem getNextProxy_acquire_witness:
  "currentIndex (pool world1) < length (proxies (pool world1)) \<and>
   getNextProxy (\<lambda>_. 100000) world1 = (Inr (Some 1), acquired 100000 1 world1) \<and>
   connections (proxies (pool (acquired 100000 1 world1)) ! 1) = 3 \<and>
   currentIndex (pool world2) < length (proxies (pool world2)) \<and>
   getNextProxy (\<lambda>_. 100000) world2 =
     (Inr (Some 1), acquired 100000 1 (resetAll world2)) \<and>
   failures (proxies (pool (acquired 100000 1 (resetAll world2))) ! 1) = 0"
proof -
  have c1: "currentIndex (pool world1) < length (proxies (pool world1))"
    by (simp add: world1_simps)
  have c2: "currentIndex (pool world2) < length (proxies (pool world2))"
    by (simp add: world2_simps)
  note t1 = getNextProxy_acquire [where w=world1 and clock="\<lambda>_. 100000", OF c1,
      THEN conjunct1, rule_format, of 1]
  note t2 = getNextProxy_acquire [where w=world2 and clock="\<lambda>_. 100000", OF c2,
      THEN conjunct2, THEN conjunct1, rule_format]
  have cy1: "cyc (pool world1) 0 = 0" "cyc (pool world1) 1 = 1"
    "cyc (pool world1) (Suc 0) = Suc 0"
    by (simp_all add: cyc_def world1_simps)
  have k1: "1 < length (proxies (pool world1))" by (simp add: world1_simps)
  have h1: "(\<forall>j<1. skipped 100000 (proxies (pool world1) ! cyc (pool world1) j)) \<and>
        failures (proxies (pool world1) ! cyc (pool world1) 1) < MAX_FAILURES \<and>
        connections (proxies (pool world1) ! cyc (pool world1) 1) < MAX_CONNECTIONS \<and>
        COOLDOWN_PERIOD \<le> 100000 - lastUsed (proxies (pool world1) ! cyc (pool world1) 1)"
    by (simp add: cy1 world1_simps skipped_proxyA proxyB_def
          MAX_FAILURES_def MAX_CONNECTIONS_def COOLDOWN_PERIOD_def)
  have r1: "getNextProxy (\<lambda>_. 100000) world1 = (Inr (Some 1), acquired 100000 1 world1)"
    using t1 [OF k1 h1] by (simp only: cy1)
  have sk2: "\<forall>j<length (proxies (pool world2)).
          skipped 100000 (proxies (pool world2) ! cyc (pool world2) j)"
  proof (intro allI impI)
    fix j assume "j < length (proxies (pool world2))"
    have "cyc (pool world2) j < length (proxies (pool world2))" by (rule cyc_less [OF c2])
    then have "cyc (pool world2) j < 2" by (simp add: world2_simps)
    then have "cyc (pool world2) j = 0 \<or> cyc (pool world2) j = 1" by auto
    then show "skipped 100000 (proxies (pool world2) ! cyc (pool world2) j)"
      by (auto simp: world2_simps skipped_proxyA)
  qed
  have all2: "\<forall>p \<in> set (proxies (pool world2)). failures p \<ge> MAX_FAILURES"
    by (simp add: world2_simps proxyA_def MAX_FAILURES_def)
  from t2 [OF conjI [OF sk2 all2]]
  have r2: "getNextProxy (\<lambda>_. 100000) world2 =
     (Inr (Some 1), acquired 100000 1 (resetAll world2))"
    by (simp add: world2_simps COOLDOWN_PERIOD_def)
  have v1: "connections (proxies (pool (acquired 100000 1 world1)) ! 1) = 3"
    by (simp add: acquired_def world1_def proxyA_def proxyB_def)
  have v2: "failures (proxies (pool (acquired 100000 1 (resetAll world2))) ! 1) = 0"
    by (simp add: acquired_def resetAll_def resetProxy_def world2_def proxyA_def)
  from c1 r1 v1 c2 r2 v2 show ?thesis by blast
qed

text \<open>
  Claim C1, as the code has it. \<open>readResponse\<close> appends every chunk to its buffer. At
  the first chunk after which the buffer contains CRLF and one of the pieces between its
  CRLFs (the unterminated tail included) matches \<^verbatim>\<open>^[0-9]{3}([ -].*)?$\<close>, it resolves
  with the first such piece in buffer order, whether it is a continuation line
  \<open>NNN-...\<close> or a terminating line \<open>NNN ...\<close>; that piece alone is the response.
  It resolves in no other way, and it ends in \<open>Response timeout\<close> exactly when no chunk
  brings such a piece. In particular, when the first chunk starts with a complete
  matching line, that line is the response, and every line it resolves with matches the
  pattern.
\<close>

theorem readResponse_first_matching_line:
  "(test responseRegex l \<longrightarrow> readResponse ((l @ CRLF @ rest) # ds) = Inr l) \<and>
   (readResponse chunks = Inr line \<longrightarrow> test responseRegex line) \<and>
   (\<forall>k < length chunks.
      (\<forall>j<k. noMatch (buffered chunks j)) \<and> firstMatching (buffered chunks k) line
      \<longrightarrow> readResponse chunks = Inr line) \<and>
   (readResponse chunks = Inr line \<longrightarrow>
      (\<exists>k < length chunks.
         (\<forall>j<k. noMatch (buffered chunks j)) \<and> firstMatching (buffered chunks k) line)) \<and>
   ((\<forall>k < length chunks. noMatch (buffered chunks k)) \<longleftrightarrow>
      readResponse chunks = Inl (Error ''Response timeout'')) \<and>
   (noMatch response \<longleftrightarrow> \<not> (\<exists>found. firstMatching response found))"
proof (intro conjI impI allI)
  assume "test responseRegex l"
  then show "readResponse ((l @ CRLF @ rest) # ds) = Inr l" by (rule readResponse_first_line)
next
  assume "readResponse chunks = Inr line"
  then have "handleData [] chunks = Some line"
    by (simp add: readResponse_def split: option.splits)
  then show "test responseRegex line" by (rule handleData_matches)
next
  fix k
  assume k: "k < length chunks"
    and h: "(\<forall>j<k. noMatch (buffered chunks j)) \<and> firstMatching (buffered chunks k) line"
  have "handleData [] chunks = Some line"
    by (rule handleData_first [OF k]) (use h in simp_all)
  then show "readResponse chunks = Inr line" by (simp add: readResponse_def)
next
  assume "readResponse chunks = Inr line"
  then have "handleData [] chunks = Some line"
    by (simp add: readResponse_def split: option.splits)
  from handleData_origin [OF this]
  show "\<exists>k < length chunks.
         (\<forall>j<k. noMatch (buffered chunks j)) \<and> firstMatching (buffered chunks k) line"
    by simp
next
  show "(\<forall>k < length chunks. noMatch (buffered chunks k)) \<longleftrightarrow>
      readResponse chunks = Inl (Error ''Response timeout'')"
    by (rule readResponse_timeout_iff)
next
  show "noMatch response \<longleftrightarrow> \<not> (\<exists>found. firstMatching response found)"
    by (rule noMatch_iff)
qed

theorem readResponse_first_matching_line_witness:
  "test responseRegex ''250-mx.example.com'' \<and>
   readResponse ((''250-mx.example.com'' @ CRLF @ (''250 END'' @ CRLF)) # []) = Inr ''250-mx.example.com'' \<and>
   test responseRegex ''250-mx.example.com'' \<and>
   noMatch (buffered cutReply 0) \<and>
   firstMatching (buffered cutReply 1) ''250-mx.example.com'' \<and>
   readResponse cutReply = Inr ''250-mx.example.com'' \<and>
   noMatch (buffered [''hello'' @ CRLF] 0) \<and>
   readResponse [''hello'' @ CRLF] = Inl (Error ''Response timeout'')"
proof -
  have m: "test responseRegex ''250-mx.example.com''" by (rule cutReply_tests)
  note t = readResponse_first_matching_line
    [of "''250-mx.example.com''" "''250 END'' @ CRLF" "[]"
        "[(''250-mx.example.com'' @ CRLF @ (''250 END'' @ CRLF))]" "''250-mx.example.com''"]
  from t m have r: "readResponse ((''250-mx.example.com'' @ CRLF @ (''250 END'' @ CRLF)) # []) =
      Inr ''250-mx.example.com''" by blast
  with t have m': "test responseRegex ''250-mx.example.com''" by blast
  have n0: "noMatch (buffered cutReply 0)"
    unfolding noMatch_def cutReply_buffers cutReply_lines by (simp add: cutReply_tests)
  have i1: "includesStr (buffered cutReply 1) CRLF"
    unfolding cutReply_buffers by (rule includesStr_append)
  have f1: "firstMatching (buffered cutReply 1) ''250-mx.example.com''"
    unfolding firstMatching_def
  proof (intro conjI exI [of _ 1])
    show "includesStr (buffered cutReply 1) CRLF" by (rule i1)
    show "1 < length (split (buffered cutReply 1) CRLF)"
      unfolding cutReply_buffers cutReply_lines by simp
    show "split (buffered cutReply 1) CRLF ! 1 = ''250-mx.example.com''"
      unfolding cutReply_buffers cutReply_lines by simp
    show "test responseRegex ''250-mx.example.com''" by (rule m)
    show "\<forall>j<1. \<not> test responseRegex (split (buffered cutReply 1) CRLF ! j)"
      unfolding cutReply_buffers cutReply_lines by (simp add: cutReply_tests)
  qed
  note c = readResponse_first_matching_line
    [of "[]" "[]" "[]" cutReply "''250-mx.example.com''", THEN conjunct2, THEN conjunct2,
     THEN conjunct1, rule_format, of 1]
  have k: "1 < length cutReply" by (simp add: cutReply_buffers)
  have b: "(\<forall>j<1. noMatch (buffered cutReply j)) \<and>
           firstMatching (buffered cutReply 1) ''250-mx.example.com''"
    using n0 f1 by simp
  from c [OF k b] have rc: "readResponse cutReply = Inr ''250-mx.example.com''" .
  have bh: "buffered [''hello'' @ CRLF] 0 = ''hello'' @ CRLF" by (simp add: buffered_def)
  have nh: "noMatch (buffered [''hello'' @ CRLF] 0)"
    unfolding noMatch_def bh cutReply_lines by (simp add: cutReply_tests)
  then have "\<forall>k<length [''hello'' @ CRLF]. noMatch (buffered [''hello'' @ CRLF] k)" by simp
  with readResponse_first_matching_line [of "[]" "[]" "[]" "[''hello'' @ CRLF]" "[]"]
  have rt: "readResponse [''hello'' @ CRLF] = Inl (Error ''Response timeout'')" by blast
  from m r m' n0 f1 rc nh rt show ?thesis by blast
qed

text \<open>
  The claim as stated fails on a three-line reply to \<open>EHLO\<close> ending in \<open>250 END\<close>: the
  response is its first continuation line.
\<close>

theorem readResponse_continuation_counterexample:
  "readResponse [ehloReply] = Inr ''250-mx.example.com'' \<and>
   readResponse [ehloReply] \<noteq> Inr ''250 END'' \<and>
   startsWith ''250-mx.example.com'' ''250-'' \<and>
   includesStr ehloReply (''250 END'' @ CRLF)"
  by code_simp




text \<open>
  Claim C4, as the code has it. On an empty pool \<open>getNextProxy\<close> returns none, and
  \<open>verifyMailbox\<close> then throws \<open>No available proxies\<close> in each of its three rounds: it
  opens no connection, pauses 2 s and 4 s between the rounds, and reports
  \<open>success = false\<close> with \<open>Verification failed after 3 attempts\<close>.
\<close>

theorem verifyMailbox_without_proxies:
  assumes "proxies (pool w) = []"
  shows "getNextProxy (dateNow net) w = (Inr None, w) \<and>
         verifyMailbox net mxhost em domain w =
           (\<lparr>success = False, mailboxExists = False, code = None, rmessage = None,
              error = Some ''Verification failed after 3 attempts''\<rparr>,
            w\<lparr>trace := trace w @ [Sleep 2000, Sleep 4000]\<rparr>)"
  using assms getNextProxy_empty [OF assms] verifyMailbox_empty_pool [OF assms] by simp

theorem verifyMailbox_without_proxies_witness:
  "proxies (pool emptyWorld) = [] \<and>
   fst (verifyMailbox (scripted accepting) ''mx1.example.com'' ''a@example.com'' ''example.com''
          emptyWorld) =
     \<lparr>success = False, mailboxExists = False, code = None, rmessage = None,
      error = Some ''Verification failed after 3 attempts''\<rparr>"
proof -
  have e: "proxies (pool emptyWorld) = []" by (simp add: emptyWorld_def)
  from verifyMailbox_without_proxies [OF e, of "scripted accepting" "''mx1.example.com''"
      "''a@example.com''" "''example.com''"] e
  show ?thesis by simp
qed

text \<open>
  The claim as stated fails with an empty pool and a server that would accept the whole
  dialog: \<open>createProxyConnection\<close> without a proxy would give a direct socket, but
  \<open>verifyMailbox\<close> never calls it so, dials nothing and fails, and the validation ends
  with \<open>valid = false\<close>.
\<close>

theorem empty_pool_direct_dial_counterexample:
  "proxies (pool emptyWorld) = [] \<and>
   fst (createProxyConnection (scripted accepting) None ''mx1.example.com'' emptyWorld) =
     Inr \<lparr>sid = 0, via = None, written = [], destroyed = False\<rparr> \<and>
   \<not> success (fst (verifyMailbox (scripted accepting) ''mx1.example.com'' ''a@example.com''
                     ''example.com'' emptyWorld)) \<and>
   trace (snd (verifyMailbox (scripted accepting) ''mx1.example.com'' ''a@example.com''
                 ''example.com'' emptyWorld)) = [Sleep 2000, Sleep 4000] \<and>
   fst (validateEmail (scripted accepting) (JStr ''a@example.com'') emptyWorld) =
     Inr \<lparr>email = JStr ''a@example.com'', valid = False,
          checks = \<lparr>format = True, dns = True, mx = True, spf = True, smtp = False,
                    mailbox = False, catchAll = Some False\<rparr>,
          details = \<lparr>mxRecords = [\<lparr>exchange = ''mx1.example.com'', priority = 10\<rparr>,
                                   \<lparr>exchange = ''mx2.example.com'', priority = 20\<rparr>],
                     spfRecord = Some ''v=spf1 -all'', smtpResponse = None\<rparr>,
          reason = ''Verification failed after 3 attempts''\<rparr>"
  by code_simp

text \<open>
  Claim C5, as the code has it. One round of the loop over the mail exchangers calls the
  verifier for the exchanger and has three outcomes. When the verification completes and
  reports that the mailbox exists, the loop stops. When it completes and reports that
  the mailbox does not exist, the loop records \<open>smtp = true, mailbox = false\<close> and goes
  on to call the verifier for the next exchanger. When it does not complete, the loop
  goes on with \<open>result\<close> as it was. A completed verification is always the outcome of
  the reply some dialog for the address got to \<open>RCPT\<close>; the first three characters of the
  reply are its code, and the mailbox exists for \<open>2xx\<close>, 451 and 452 only. So after a
  completed verification whose code begins with 5 the loop goes on, and a dialog that is
  completed in the first round with a reply beginning with 5 is such a verification.
  Whether the next call dials its exchanger is up to the proxy pool.
\<close>

theorem mxLoop_continues_after_rejection:
  "(success (fst (verifyFor net cfg em domain m w)) \<and>
    \<not> mailboxExists (fst (verifyFor net cfg em domain m w)) \<longrightarrow>
      mxLoop net cfg em domain (m # ms) (result, smtpSuccess, lastError) w =
      mxLoop net cfg em domain ms
        (result\<lparr>checks := (checks result)\<lparr>smtp := True, mailbox := False, catchAll := None\<rparr>,
                details := (details result)
                  \<lparr>smtpResponse := Some (fst (verifyFor net cfg em domain m w))\<rparr>\<rparr>,
         smtpSuccess, error (fst (verifyFor net cfg em domain m w)))
        (snd (verifyFor net cfg em domain m w))) \<and>
   (startsWith rcptResponse ''5'' \<longrightarrow>
      success (rcptOutcome rcptResponse) \<and> \<not> mailboxExists (rcptOutcome rcptResponse)) \<and>
   (success (fst (verifyFor net cfg em domain m w)) \<and>
    mailboxExists (fst (verifyFor net cfg em domain m w)) \<longrightarrow>
      mxLoop net cfg em domain (m # ms) (result, smtpSuccess, lastError) w =
      ((result\<lparr>checks := (checks result)\<lparr>smtp := True, mailbox := True, catchAll := None\<rparr>,
                details := (details result)
                  \<lparr>smtpResponse := Some (fst (verifyFor net cfg em domain m w))\<rparr>\<rparr>,
        True, lastError),
       snd (verifyFor net cfg em domain m w))) \<and>
   (\<not> success (fst (verifyFor net cfg em domain m w)) \<longrightarrow>
      mxLoop net cfg em domain (m # ms) (result, smtpSuccess, lastError) w =
      mxLoop net cfg em domain ms
        (result, smtpSuccess, error (fst (verifyFor net cfg em domain m w)))
        (snd (verifyFor net cfg em domain m w))) \<and>
   mxLoop net cfg em domain [] (result, smtpSuccess, lastError) w =
     ((result, smtpSuccess, lastError), w) \<and>
   (success (fst (verifyFor net cfg em domain m w)) \<longrightarrow>
      (\<exists>reply s' w' st'.
         dialog net em domain (s', w') = (Inr reply, st') \<and>
         fst (verifyFor net cfg em domain m w) = rcptOutcome reply)) \<and>
   (success (fst (verifyFor net cfg em domain m w)) \<and>
    code (fst (verifyFor net cfg em domain m w)) = Some c \<and> startsWith c ''5'' \<longrightarrow>
      mxLoop net cfg em domain (m # ms) (result, smtpSuccess, lastError) w =
      mxLoop net cfg em domain ms
        (result\<lparr>checks := (checks result)\<lparr>smtp := True, mailbox := False, catchAll := None\<rparr>,
                details := (details result)
                  \<lparr>smtpResponse := Some (fst (verifyFor net cfg em domain m w))\<rparr>\<rparr>,
         smtpSuccess, None)
        (snd (verifyFor net cfg em domain m w))) \<and>
   code (rcptOutcome rcptResponse) = Some (take 3 rcptResponse) \<and>
   (mailboxExists (rcptOutcome rcptResponse) \<longleftrightarrow>
      startsWith (take 3 rcptResponse) ''2'' \<or> take 3 rcptResponse = ''451'' \<or>
      take 3 rcptResponse = ''452'') \<and>
   (getNextProxy (dateNow net) w = (Inr (Some i), w1) \<and>
    createProxyConnection net (Some i) (exchange m) w1 = (Inr s, w2) \<and>
    dialog net em domain (s, w2) = (Inr rcptResponse, st3) \<longrightarrow>
      fst (verifyFor net cfg em domain m w) = rcptOutcome rcptResponse) \<and>
   (getNextProxy (dateNow net) w = (Inr (Some i), w1) \<and>
    createProxyConnection net (Some i) (exchange m) w1 = (Inr s, w2) \<and>
    dialog net em domain (s, w2) = (Inr rcptResponse, st3) \<and>
    startsWith rcptResponse ''5'' \<longrightarrow>
      mxLoop net cfg em domain (m # ms) (result, smtpSuccess, lastError) w =
      mxLoop net cfg em domain ms
        (result\<lparr>checks := (checks result)\<lparr>smtp := True, mailbox := False, catchAll := None\<rparr>,
                details := (details result)\<lparr>smtpResponse := Some (rcptOutcome rcptResponse)\<rparr>\<rparr>,
         smtpSuccess, None)
        (snd (verifyFor net cfg em domain m w)))"
proof (intro conjI impI)
  assume "success (fst (verifyFor net cfg em domain m w)) \<and>
    \<not> mailboxExists (fst (verifyFor net cfg em domain m w))"
  then show "mxLoop net cfg em domain (m # ms) (result, smtpSuccess, lastError) w =
      mxLoop net cfg em domain ms
        (result\<lparr>checks := (checks result)\<lparr>smtp := True, mailbox := False, catchAll := None\<rparr>,
                details := (details result)
                  \<lparr>smtpResponse := Some (fst (verifyFor net cfg em domain m w))\<rparr>\<rparr>,
         smtpSuccess, error (fst (verifyFor net cfg em domain m w)))
        (snd (verifyFor net cfg em domain m w))"
    using mxLoop_skip_rejected [of net cfg em domain m w ms result smtpSuccess lastError]
    by blast
next
  assume a: "startsWith rcptResponse ''5''"
  from rcptOutcome_5xx [OF a] show "success (rcptOutcome rcptResponse)" by blast
  from rcptOutcome_5xx [OF a] show "\<not> mailboxExists (rcptOutcome rcptResponse)" by blast
next
  assume "success (fst (verifyFor net cfg em domain m w)) \<and>
    mailboxExists (fst (verifyFor net cfg em domain m w))"
  then show "mxLoop net cfg em domain (m # ms) (result, smtpSuccess, lastError) w =
      ((result\<lparr>checks := (checks result)\<lparr>smtp := True, mailbox := True, catchAll := None\<rparr>,
                details := (details result)
                  \<lparr>smtpResponse := Some (fst (verifyFor net cfg em domain m w))\<rparr>\<rparr>,
        True, lastError),
       snd (verifyFor net cfg em domain m w))"
    using mxLoop_stop [of net cfg em domain m w ms result smtpSuccess lastError] by blast
next
  assume "\<not> success (fst (verifyFor net cfg em domain m w))"
  then show "mxLoop net cfg em domain (m # ms) (result, smtpSuccess, lastError) w =
      mxLoop net cfg em domain ms
        (result, smtpSuccess, error (fst (verifyFor net cfg em domain m w)))
        (snd (verifyFor net cfg em domain m w))"
    by (rule mxLoop_skip_failed)
next
  show "mxLoop net cfg em domain [] (result, smtpSuccess, lastError) w =
     ((result, smtpSuccess, lastError), w)" by simp
next
  assume "success (fst (verifyFor net cfg em domain m w))"
  then have "repliedBy net em domain (fst (verifyFor net cfg em domain m w))"
    by (rule verifyFor_completed)
  then show "\<exists>reply s' w' st'.
         dialog net em domain (s', w') = (Inr reply, st') \<and>
         fst (verifyFor net cfg em domain m w) = rcptOutcome reply"
    by (simp add: repliedBy_def)
next
  assume h: "success (fst (verifyFor net cfg em domain m w)) \<and>
    code (fst (verifyFor net cfg em domain m w)) = Some c \<and> startsWith c ''5''"
  then have "repliedBy net em domain (fst (verifyFor net cfg em domain m w))"
    using verifyFor_completed by blast
  then obtain reply where v: "fst (verifyFor net cfg em domain m w) = rcptOutcome reply"
    unfolding repliedBy_def by blast
  from h have "c = take 3 reply" unfolding v by (simp add: rcptOutcome_fields)
  with h have five: "startsWith (take 3 reply) ''5''" by simp
  then obtain rest where t: "take 3 reply = CHR ''5'' # rest"
    by (cases "take 3 reply") (auto simp: startsWith_def)
  have e: "\<not> mailboxExists (fst (verifyFor net cfg em domain m w))"
    unfolding v by (simp add: rcptOutcome_fields t startsWith_def)
  have n: "error (fst (verifyFor net cfg em domain m w)) = None"
    unfolding v by (simp add: rcptOutcome_fields)
  from h have s: "success (fst (verifyFor net cfg em domain m w))" by simp
  from mxLoop_skip_rejected [OF s e, of ms result smtpSuccess lastError] n
  show "mxLoop net cfg em domain (m # ms) (result, smtpSuccess, lastError) w =
      mxLoop net cfg em domain ms
        (result\<lparr>checks := (checks result)\<lparr>smtp := True, mailbox := False, catchAll := None\<rparr>,
                details := (details result)
                  \<lparr>smtpResponse := Some (fst (verifyFor net cfg em domain m w))\<rparr>\<rparr>,
         smtpSuccess, None)
        (snd (verifyFor net cfg em domain m w))"
    by simp
next
  show "code (rcptOutcome rcptResponse) = Some (take 3 rcptResponse)"
    by (rule rcptOutcome_fields)
next
  show "mailboxExists (rcptOutcome rcptResponse) \<longleftrightarrow>
      startsWith (take 3 rcptResponse) ''2'' \<or> take 3 rcptResponse = ''451'' \<or>
      take 3 rcptResponse = ''452''"
    by (rule rcptOutcome_fields)
next
  assume h: "getNextProxy (dateNow net) w = (Inr (Some i), w1) \<and>
    createProxyConnection net (Some i) (exchange m) w1 = (Inr s, w2) \<and>
    dialog net em domain (s, w2) = (Inr rcptResponse, st3)"
  show "fst (verifyFor net cfg em domain m w) = rcptOutcome rcptResponse"
    by (rule verifyFor_first_round [of net w i w1 m s w2 em domain rcptResponse st3])
       (use h in simp_all)
next
  assume h: "getNextProxy (dateNow net) w = (Inr (Some i), w1) \<and>
    createProxyConnection net (Some i) (exchange m) w1 = (Inr s, w2) \<and>
    dialog net em domain (s, w2) = (Inr rcptResponse, st3) \<and>
    startsWith rcptResponse ''5''"
  have v: "fst (verifyFor net cfg em domain m w) = rcptOutcome rcptResponse"
    by (rule verifyFor_first_round [of net w i w1 m s w2 em domain rcptResponse st3])
       (use h in simp_all)
  from h have five: "startsWith rcptResponse ''5''" by simp
  note o = rcptOutcome_5xx [OF five]
  have s: "success (fst (verifyFor net cfg em domain m w))"
    and e: "\<not> mailboxExists (fst (verifyFor net cfg em domain m w))"
    using o unfolding v by simp_all
  from mxLoop_skip_rejected [OF s e, of ms result smtpSuccess lastError] o
  show "mxLoop net cfg em domain (m # ms) (result, smtpSuccess, lastError) w =
      mxLoop net cfg em domain ms
        (result\<lparr>checks := (checks result)\<lparr>smtp := True, mailbox := False, catchAll := None\<rparr>,
                details := (details result)\<lparr>smtpResponse := Some (rcptOutcome rcptResponse)\<rparr>\<rparr>,
         smtpSuccess, None)
        (snd (verifyFor net cfg em domain m w))"
    unfolding v by simp
qed

theorem mxLoop_continues_after_rejection_witness:
  "success (fst (verifyFor (scripted rejectingFirst) genericConfig ''a@example.com''
                   ''example.com'' mx1 oneProxyWorld)) \<and>
   \<not> mailboxExists (fst (verifyFor (scripted rejectingFirst) genericConfig ''a@example.com''
                   ''example.com'' mx1 oneProxyWorld)) \<and>
   startsWith ''550 5.1.1 User unknown'' ''5'' \<and>
   \<not> mailboxExists (rcptOutcome ''550 5.1.1 User unknown'') \<and>
   mxLoop (scripted rejectingFirst) genericConfig ''a@example.com'' ''example.com'' [mx1, mx2]
     (initialResult (JStr ''a@example.com''), False, None) oneProxyWorld =
   mxLoop (scripted rejectingFirst) genericConfig ''a@example.com'' ''example.com'' [mx2]
     ((initialResult (JStr ''a@example.com''))
        \<lparr>checks := (checks (initialResult (JStr ''a@example.com'')))
                     \<lparr>smtp := True, mailbox := False, catchAll := None\<rparr>,
         details := (details (initialResult (JStr ''a@example.com'')))
           \<lparr>smtpResponse := Some (fst (verifyFor (scripted rejectingFirst) genericConfig
                ''a@example.com'' ''example.com'' mx1 oneProxyWorld))\<rparr>\<rparr>,
      False,
      error (fst (verifyFor (scripted rejectingFirst) genericConfig ''a@example.com''
                ''example.com'' mx1 oneProxyWorld)))
     (snd (verifyFor (scripted rejectingFirst) genericConfig ''a@example.com''
             ''example.com'' mx1 oneProxyWorld)) \<and>
   fst (getNextProxy (dateNow (scripted rejectingFirst)) oneProxyWorld) = Inr (Some 0) \<and>
   fst (createProxyConnection (scripted rejectingFirst) (Some 0) (exchange mx1)
          (snd (getNextProxy (dateNow (scripted rejectingFirst)) oneProxyWorld))) = Inr socket0 \<and>
   fst (dialog (scripted rejectingFirst) ''a@example.com'' ''example.com''
          (socket0, snd (createProxyConnection (scripted rejectingFirst) (Some 0) (exchange mx1)
             (snd (getNextProxy (dateNow (scripted rejectingFirst)) oneProxyWorld))))) =
     Inr ''550 5.1.1 User unknown'' \<and>
   fst (verifyFor (scripted rejectingFirst) genericConfig ''a@example.com'' ''example.com''
          mx1 oneProxyWorld) = rcptOutcome ''550 5.1.1 User unknown'' \<and>
   code (fst (verifyFor (scripted rejectingFirst) genericConfig ''a@example.com''
                ''example.com'' mx1 oneProxyWorld)) = Some ''550'' \<and>
   startsWith ''550'' ''5'' \<and>
   mxLoop (scripted rejectingFirst) genericConfig ''a@example.com'' ''example.com'' [mx1, mx2]
     (initialResult (JStr ''a@example.com''), False, Some ''earlier'') oneProxyWorld =
   mxLoop (scripted rejectingFirst) genericConfig ''a@example.com'' ''example.com'' [mx2]
     ((initialResult (JStr ''a@example.com''))
        \<lparr>checks := (checks (initialResult (JStr ''a@example.com'')))
                     \<lparr>smtp := True, mailbox := False, catchAll := None\<rparr>,
         details := (details (initialResult (JStr ''a@example.com'')))
           \<lparr>smtpResponse := Some (fst (verifyFor (scripted rejectingFirst) genericConfig
                ''a@example.com'' ''example.com'' mx1 oneProxyWorld))\<rparr>\<rparr>,
      False, None)
     (snd (verifyFor (scripted rejectingFirst) genericConfig ''a@example.com''
             ''example.com'' mx1 oneProxyWorld)) \<and>
   success (fst (verifyFor (scripted accepting) genericConfig ''a@example.com''
                   ''example.com'' mx1 oneProxyWorld)) \<and>
   mailboxExists (fst (verifyFor (scripted accepting) genericConfig ''a@example.com''
                   ''example.com'' mx1 oneProxyWorld)) \<and>
   snd (fst (mxLoop (scripted accepting) genericConfig ''a@example.com'' ''example.com''
               [mx1, mx2] (initialResult (JStr ''a@example.com''), False, None) oneProxyWorld)) =
     (True, None) \<and>
   snd (mxLoop (scripted accepting) genericConfig ''a@example.com'' ''example.com''
          [mx1, mx2] (initialResult (JStr ''a@example.com''), False, None) oneProxyWorld) =
     snd (verifyFor (scripted accepting) genericConfig ''a@example.com'' ''example.com''
            mx1 oneProxyWorld) \<and>
   \<not> success (fst (verifyFor (scripted accepting) genericConfig ''a@example.com''
                     ''example.com'' mx1 emptyWorld)) \<and>
   mxLoop (scripted accepting) genericConfig ''a@example.com'' ''example.com'' [mx1, mx2]
     (initialResult (JStr ''a@example.com''), False, None) emptyWorld =
   mxLoop (scripted accepting) genericConfig ''a@example.com'' ''example.com'' [mx2]
     (initialResult (JStr ''a@example.com''), False,
      error (fst (verifyFor (scripted accepting) genericConfig ''a@example.com''
                    ''example.com'' mx1 emptyWorld)))
     (snd (verifyFor (scripted accepting) genericConfig ''a@example.com''
             ''example.com'' mx1 emptyWorld))"
proof -
  let ?N = "scripted rejectingFirst"
  let ?A = "scripted accepting"
  let ?G = "getNextProxy (dateNow ?N) oneProxyWorld"
  let ?C = "createProxyConnection ?N (Some 0) (exchange mx1) (snd ?G)"
  let ?D = "dialog ?N ''a@example.com'' ''example.com'' (socket0, snd ?C)"
  have h: "success (fst (verifyFor ?N genericConfig ''a@example.com''
                   ''example.com'' mx1 oneProxyWorld)) \<and>
   \<not> mailboxExists (fst (verifyFor ?N genericConfig ''a@example.com''
                   ''example.com'' mx1 oneProxyWorld))"
    by code_simp
  have s: "startsWith ''550 5.1.1 User unknown'' ''5''" by (simp add: startsWith_def)
  have g: "fst ?G = Inr (Some 0)" by code_simp
  have c: "fst ?C = Inr socket0" by code_simp
  have d: "fst ?D = Inr ''550 5.1.1 User unknown''" by code_simp
  have g': "?G = (Inr (Some 0), snd ?G)" using g by (metis prod.collapse)
  have c': "?C = (Inr socket0, snd ?C)" using c by (metis prod.collapse)
  have d': "?D = (Inr ''550 5.1.1 User unknown'', snd ?D)" using d by (metis prod.collapse)
  note t = mxLoop_continues_after_rejection
    [where net="?N" and cfg=genericConfig and em="''a@example.com''" and domain="''example.com''"
       and m=mx1 and w=oneProxyWorld and ms="[mx2]"
       and result="initialResult (JStr ''a@example.com'')" and smtpSuccess=False
       and lastError=None and rcptResponse="''550 5.1.1 User unknown''"
       and i=0 and ?w1.0="snd ?G" and s=socket0 and ?w2.0="snd ?C" and ?st3.0="snd ?D"]
  have ha: "success (fst (verifyFor ?A genericConfig ''a@example.com''
                   ''example.com'' mx1 oneProxyWorld)) \<and>
   mailboxExists (fst (verifyFor ?A genericConfig ''a@example.com''
                   ''example.com'' mx1 oneProxyWorld))"
    by code_simp
  note ta = mxLoop_continues_after_rejection
    [where net="?A" and cfg=genericConfig and em="''a@example.com''" and domain="''example.com''"
       and m=mx1 and w=oneProxyWorld and ms="[mx2]"
       and result="initialResult (JStr ''a@example.com'')" and smtpSuccess=False
       and lastError=None, THEN conjunct2, THEN conjunct2, THEN conjunct1, rule_format, OF ha]
  have he: "\<not> success (fst (verifyFor ?A genericConfig ''a@example.com''
                     ''example.com'' mx1 emptyWorld))"
    by code_simp
  note te = mxLoop_continues_after_rejection
    [where net="?A" and cfg=genericConfig and em="''a@example.com''" and domain="''example.com''"
       and m=mx1 and w=emptyWorld and ms="[mx2]"
       and result="initialResult (JStr ''a@example.com'')" and smtpSuccess=False
       and lastError=None, THEN conjunct2, THEN conjunct2, THEN conjunct2, THEN conjunct1,
     rule_format, OF he]
  from t h have r1: "mxLoop ?N genericConfig ''a@example.com'' ''example.com'' [mx1, mx2]
     (initialResult (JStr ''a@example.com''), False, None) oneProxyWorld =
   mxLoop ?N genericConfig ''a@example.com'' ''example.com'' [mx2]
     ((initialResult (JStr ''a@example.com''))
        \<lparr>checks := (checks (initialResult (JStr ''a@example.com'')))
                     \<lparr>smtp := True, mailbox := False, catchAll := None\<rparr>,
         details := (details (initialResult (JStr ''a@example.com'')))
           \<lparr>smtpResponse := Some (fst (verifyFor ?N genericConfig
                ''a@example.com'' ''example.com'' mx1 oneProxyWorld))\<rparr>\<rparr>,
      False,
      error (fst (verifyFor ?N genericConfig ''a@example.com''
                ''example.com'' mx1 oneProxyWorld)))
     (snd (verifyFor ?N genericConfig ''a@example.com''
             ''example.com'' mx1 oneProxyWorld))"
    by blast
  from t s have r2: "\<not> mailboxExists (rcptOutcome ''550 5.1.1 User unknown'')" by blast
  from t g' c' d' have r3: "fst (verifyFor ?N genericConfig ''a@example.com'' ''example.com''
          mx1 oneProxyWorld) = rcptOutcome ''550 5.1.1 User unknown''"
    by blast
  from ta have r4: "snd (fst (mxLoop ?A genericConfig ''a@example.com'' ''example.com''
               [mx1, mx2] (initialResult (JStr ''a@example.com''), False, None) oneProxyWorld)) =
     (True, None)"
    and r5: "snd (mxLoop ?A genericConfig ''a@example.com'' ''example.com''
          [mx1, mx2] (initialResult (JStr ''a@example.com''), False, None) oneProxyWorld) =
     snd (verifyFor ?A genericConfig ''a@example.com'' ''example.com'' mx1 oneProxyWorld)"
    by simp_all
  have k: "code (fst (verifyFor ?N genericConfig ''a@example.com''
                ''example.com'' mx1 oneProxyWorld)) = Some ''550''"
    by code_simp
  have s5: "startsWith ''550'' ''5''" by (simp add: startsWith_def)
  note tc = mxLoop_continues_after_rejection
    [where net="?N" and cfg=genericConfig and em="''a@example.com''" and domain="''example.com''"
       and m=mx1 and w=oneProxyWorld and ms="[mx2]"
       and result="initialResult (JStr ''a@example.com'')" and smtpSuccess=False
       and lastError="Some ''earlier''" and c="''550''"]
  from tc h k s5 have r6: "mxLoop ?N genericConfig ''a@example.com'' ''example.com'' [mx1, mx2]
     (initialResult (JStr ''a@example.com''), False, Some ''earlier'') oneProxyWorld =
   mxLoop ?N genericConfig ''a@example.com'' ''example.com'' [mx2]
     ((initialResult (JStr ''a@example.com''))
        \<lparr>checks := (checks (initialResult (JStr ''a@example.com'')))
                     \<lparr>smtp := True, mailbox := False, catchAll := None\<rparr>,
         details := (details (initialResult (JStr ''a@example.com'')))
           \<lparr>smtpResponse := Some (fst (verifyFor ?N genericConfig
                ''a@example.com'' ''example.com'' mx1 oneProxyWorld))\<rparr>\<rparr>,
      False, None)
     (snd (verifyFor ?N genericConfig ''a@example.com'' ''example.com'' mx1 oneProxyWorld))"
    by blast
  from h s r2 r1 g c d r3 k s5 r6 ha r4 r5 he te show ?thesis by blast
qed

text \<open>
  The claim as stated fails when the first exchanger answers \<open>550 5.1.1 User unknown\<close>:
  the second exchanger is dialled and probed afterwards, with one proxy whose cooldown
  has passed by then, and with two proxies and readings of the clock 3 seconds apart.
\<close>

theorem mx_loop_after_550_counterexample:
  "fst (verifyMailbox (scripted rejectingFirst) ''mx1.example.com'' ''a@example.com''
          ''example.com'' oneProxyWorld) =
     \<lparr>success = True, mailboxExists = False, code = Some ''550'',
      rmessage = Some ''5.1.1 User unknown'', error = None\<rparr> \<and>
   trace (snd (validateEmail (scripted rejectingFirst) (JStr ''a@example.com'') oneProxyWorld)) =
     [Dial (Some 0) ''mx1.example.com'', Send 0 ''EHLO example.com'',
      Send 0 ''MAIL FROM:<verify.k3j9x2@sendgrid.net>'',
      Send 0 ''RCPT TO:<a@example.com>'', Send 0 ''QUIT'',
      Dial (Some 0) ''mx2.example.com'', Send 1 ''EHLO example.com'',
      Send 1 ''MAIL FROM:<verify.k3j9x2@sendgrid.net>'',
      Send 1 ''RCPT TO:<a@example.com>'', Send 1 ''QUIT''] \<and>
   trace (snd (validateEmail (paced rejectingFirst) (JStr ''a@example.com'') twoProxyWorld)) =
     [Dial (Some 0) ''mx1.example.com'', Send 0 ''EHLO example.com'',
      Send 0 ''MAIL FROM:<verify.k3j9x2@sendgrid.net>'',
      Send 0 ''RCPT TO:<a@example.com>'', Send 0 ''QUIT'',
      Dial (Some 1) ''mx2.example.com'', Send 1 ''EHLO example.com'',
      Send 1 ''MAIL FROM:<verify.k3j9x2@sendgrid.net>'',
      Send 1 ''RCPT TO:<a@example.com>'', Send 1 ''QUIT'']"
  by code_simp

text \<open>
  Claim C6 against the code. The pattern allows one character, then at most 61, then one:
  63 in all. So every address whose local part has 64 characters fails the format stage,
  and \<open>validateEmail\<close> answers \<open>Invalid email format\<close>, although the length stage that
  follows only refuses more than 64. A local part of 63 characters passes.
\<close>

theorem format_rejects_64_char_local_part:
  assumes "length l = 64"
  shows "\<not> validateEmailFormat (JStr (l @ ''@'' @ d)) \<and>
         validateEmail net (JStr (l @ ''@'' @ d)) w =
           (Inr ((initialResult (JStr (l @ ''@'' @ d)))\<lparr>reason := ''Invalid email format''\<rparr>), w)"
proof -
  have no: "\<not> validateEmailFormat (JStr (l @ ''@'' @ d))"
  proof
    assume "validateEmailFormat (JStr (l @ ''@'' @ d))"
    from format_local_bound [OF this] assms show False by simp
  qed
  from no validateEmail_bad_format [OF no] show ?thesis by blast
qed

theorem format_rejects_64_char_local_part_witness:
  "length local64 = 64 \<and>
   \<not> validateEmailFormat (JStr (local64 @ ''@'' @ ''example.com'')) \<and>
   validateEmailFormat (JStr (butlast local64 @ ''@'' @ ''example.com''))"
proof -
  have l: "length local64 = 64" by (simp add: local64_def)
  have ok: "validateEmailFormat (JStr (butlast local64 @ ''@'' @ ''example.com''))"
    by code_simp
  from format_rejects_64_char_local_part [OF l, of "''example.com''"] l ok
  show ?thesis by blast
qed

text \<open>
  Claim C7 against the code. One earlier dialog through the only proxy is still open, so
  its connection count is 1. A verification whose dialogs succeed leaves the count at 1:
  each acquisition is undone once, by the \<open>close\<close> handler. A verification whose
  dialogs fail at the greeting leaves it at 0: each failed dialog is undone by
  \<open>markProxyFailure\<close> in the \<open>catch\<close> and again by \<open>releaseProxy\<close> when \<open>cleanup\<close> destroys
  the socket, so the count falls below the number of open dialogs.
\<close>

theorem failed_dialog_releases_twice:
  "connections (proxies (pool busyWorld) ! 0) = 1 \<and>
   connections (proxies (pool (snd (verifyMailbox (scripted accepting) ''mx1.example.com''
       ''a@example.com'' ''example.com'' busyWorld))) ! 0) = 1 \<and>
   \<not> success (fst (verifyMailbox (scripted refusingGreeting) ''mx1.example.com''
       ''a@example.com'' ''example.com'' busyWorld)) \<and>
   connections (proxies (pool (snd (verifyMailbox (scripted refusingGreeting) ''mx1.example.com''
       ''a@example.com'' ''example.com'' busyWorld))) ! 0) = 0"
  by code_simp

text \<open>
  Claim C8. For every array of emails, the batch route answers with an array of the same
  length in which position \<open>k\<close> holds what the validation of the \<open>k\<close>-th email settled
  to: its result when it was fulfilled, and otherwise a stub with \<open>valid = false\<close>, the
  rejection message (or \<open>Validation failed\<close>) and all checks false. A rejection
  neither ends the loop nor drops an entry.
\<close>

theorem validateBatch_rowwise:
  "\<exists>rs. validateBatch settle (Some emails) = Json rs \<and>
        length rs = length emails \<and>
        (\<forall>k < length emails.
           rs ! k = (case settle k (emails ! k) of
                       Inr r \<Rightarrow> Result r
                     | Inl e \<Rightarrow> Stub False (if message e = [] then ''Validation failed''
                                              else message e) noChecks)) \<and>
        \<not> format noChecks \<and> \<not> dns noChecks \<and> \<not> mx noChecks \<and> \<not> spf noChecks \<and>
        \<not> smtp noChecks \<and> \<not> mailbox noChecks \<and> catchAll noChecks \<noteq> Some True"
proof -
  let ?rs = "map (\<lambda>k. settled (settle k (emails ! k))) [0 ..< length emails]"
  have "validateBatch settle (Some emails) = Json ?rs"
    by (simp add: validateBatch_def batchLoop_results)
  moreover have "length ?rs = length emails" by simp
  moreover have "\<forall>k < length emails.
           ?rs ! k = (case settle k (emails ! k) of
                       Inr r \<Rightarrow> Result r
                     | Inl e \<Rightarrow> Stub False (if message e = [] then ''Validation failed''
                                              else message e) noChecks)"
    by (simp add: settled_def)
  moreover have "\<not> format noChecks \<and> \<not> dns noChecks \<and> \<not> mx noChecks \<and> \<not> spf noChecks \<and>
        \<not> smtp noChecks \<and> \<not> mailbox noChecks \<and> catchAll noChecks \<noteq> Some True"
    by (simp add: noChecks_def)
  ultimately show ?thesis by blast
qed

theorem validateBatch_rowwise_witness:
  "\<exists>rs. validateBatch settleW (Some emailsW) = Json rs \<and> length rs = 7 \<and>
        rs ! 1 = Stub False ''boom'' noChecks \<and>
        rs ! 6 = Result (initialResult (JStr ''d@example.com''))"
proof -
  from validateBatch_rowwise [of settleW emailsW]
  obtain rs where rs: "validateBatch settleW (Some emailsW) = Json rs"
    and len: "length rs = length emailsW"
    and row: "\<forall>k < length emailsW.
           rs ! k = (case settleW k (emailsW ! k) of
                       Inr r \<Rightarrow> Result r
                     | Inl e \<Rightarrow> Stub False (if message e = [] then ''Validation failed''
                                              else message e) noChecks)"
    by blast
  have l7: "length emailsW = 7" by (simp add: emailsW_def)
  from row l7 have "rs ! 1 = (case settleW 1 (emailsW ! 1) of
                       Inr r \<Rightarrow> Result r
                     | Inl e \<Rightarrow> Stub False (if message e = [] then ''Validation failed''
                                              else message e) noChecks)"
    by simp
  then have r1: "rs ! 1 = Stub False ''boom'' noChecks" by (simp add: settleW_def)
  from row l7 have "rs ! 6 = (case settleW 6 (emailsW ! 6) of
                       Inr r \<Rightarrow> Result r
                     | Inl e \<Rightarrow> Stub False (if message e = [] then ''Validation failed''
                                              else message e) noChecks)"
    by simp
  then have r6: "rs ! 6 = Result (initialResult (JStr ''d@example.com''))"
    by (simp add: settleW_def emailsW_def)
  from rs len l7 r1 r6 show ?thesis by auto
qed

text \<open>
  Claim C9. For every value passed as the email (strings, \<open>null\<close>, \<open>undefined\<close>, anything
  else), the promise of \<open>validateEmail\<close> is fulfilled with a result and never rejected.
  Hence \<open>validateEmailWithRetry\<close>, from any retry count, is \<open>validateEmail\<close>: same
  result, same final state, and in particular no retry pause is added to the trace.
\<close>

theorem validateEmailWithRetry_is_validateEmail:
  "(\<exists>r w'. validateEmail net v w = (Inr r, w')) \<and>
   validateEmailWithRetry net v retryCount w = validateEmail net v w \<and>
   trace (snd (validateEmailWithRetry net v retryCount w)) = trace (snd (validateEmail net v w))"
proof -
  obtain r w' where ok: "validateEmail net v w = (Inr r, w')"
    using validateEmail_fulfils by blast
  then have eq: "validateEmailWithRetry net v retryCount w = validateEmail net v w"
    by (simp add: validateEmailWithRetry.simps [of net v retryCount w])
  from ok eq show ?thesis by simp
qed




end
